theory Spec2Isabelle
  imports Main "HOL-Library.Word" "HOL-Library.Multiset"
begin

unbundle bit_operations_syntax

section \<open>Data model of the NNUE accumulator subsystem\<close>

text \<open>
  The file \<^verbatim>\<open>nnue_accumulator.cpp\<close> keeps, for every ply of the search path, the
  first-layer activations of two networks from two perspectives. The types it works on are
  declared in headers; they are rendered here as the source uses them: a colour-indexed
  C array is a function from \<open>Color\<close>, an array of \<open>int16_t\<close> is a list of 16-bit words,
  a \<open>Bitboard\<close> is a 64-bit word, \<open>std::size_t\<close> is a 64-bit word.
\<close>

datatype Color = WHITE | BLACK

datatype PieceType = PAWN | KNIGHT | BISHOP | ROOK | QUEEN | KING

type_synonym Square = nat
type_synonym Piece = "Color \<times> PieceType"
type_synonym Bitboard = "64 word"
type_synonym IndexType = nat
type_synonym size_t = "64 word"

datatype accPtr = accumulatorBigPtr | accumulatorSmallPtr

record Accumulator =
  accumulation :: "Color \<Rightarrow> 16 word list"
  psqtAccumulation :: "Color \<Rightarrow> 32 word list"
  computed :: "Color \<Rightarrow> bool"

record 'dp AccumulatorState =
  dirtyPiece :: 'dp
  accumulatorBig :: Accumulator
  accumulatorSmall :: Accumulator

text \<open>\<open>state.*accPtr\<close>: reading and writing through the pointer to member.\<close>

fun acc_of :: "accPtr \<Rightarrow> 'dp AccumulatorState \<Rightarrow> Accumulator" where
  "acc_of accumulatorBigPtr st = accumulatorBig st"
| "acc_of accumulatorSmallPtr st = accumulatorSmall st"

fun acc_store :: "accPtr \<Rightarrow> Accumulator \<Rightarrow> 'dp AccumulatorState \<Rightarrow> 'dp AccumulatorState" where
  "acc_store accumulatorBigPtr a st = st\<lparr>accumulatorBig := a\<rparr>"
| "acc_store accumulatorSmallPtr a st = st\<lparr>accumulatorSmall := a\<rparr>"

subsection \<open>\<open>AccumulatorState::reset\<close>\<close>

definition reset :: "'dp \<Rightarrow> 'dp AccumulatorState \<Rightarrow> 'dp AccumulatorState" where
  "reset dp st =
     st\<lparr>dirtyPiece := dp,
        accumulatorBig := (accumulatorBig st)\<lparr>computed := (\<lambda>_. False)\<rparr>,
        accumulatorSmall := (accumulatorSmall st)\<lparr>computed := (\<lambda>_. False)\<rparr>\<rparr>"

section \<open>Collaborators declared outside this file\<close>

text \<open>
  The feature set (\<open>FeatureSet::make_index\<close>, \<open>requires_refresh\<close>,
  \<open>append_changed_indices\<close>) lives in another translation unit. It is a parameter of
  every kernel below; \<open>DirtyPiece\<close> is the type parameter \<open>'dp\<close>.
  \<open>append_changed_indices p ksq dp\<close> yields the pair of index lists that the source
  receives through its third (removed) and fourth (added) reference argument, both of
  which are empty at each call site.
\<close>

record 'dp FeatureSet =
  make_index :: "Color \<Rightarrow> Square \<Rightarrow> Piece \<Rightarrow> Square \<Rightarrow> IndexType"
  requires_refresh :: "'dp \<Rightarrow> Color \<Rightarrow> bool"
  append_changed_indices :: "Color \<Rightarrow> Square \<Rightarrow> 'dp \<Rightarrow> IndexType list \<times> IndexType list"

text \<open>
  The feature transformer is read only: \<open>weights\<close> and \<open>psqtWeights\<close> are flat arrays
  laid out row-major by feature index, read here as functions from the flat offset.
  Feature indices are assumed valid, so the offset arithmetic does not overflow.
\<close>

record FeatureTransformer =
  Dimensions :: nat
  weights :: "nat \<Rightarrow> 16 word"
  psqtWeights :: "nat \<Rightarrow> 32 word"

definition PSQTBuckets :: nat where
  "PSQTBuckets = 8"

text \<open>The queries of \<open>Position\<close> that the accumulator code calls.\<close>

record Position =
  king_square :: "Color \<Rightarrow> Square"
  pieces_c :: "Color \<Rightarrow> Bitboard"
  pieces_pt :: "PieceType \<Rightarrow> Bitboard"
  pieces_c_pt :: "Color \<Rightarrow> PieceType \<Rightarrow> Bitboard"

datatype error = AssertionFailed | OutOfBounds

datatype UpdateOperation = Add | Sub

datatype IncUpdateDirection = FORWARD | BACKWARD

text \<open>
  Modelled from the spec: the vector facade \<open>fused\<close> of the SIMD header, which is not
  among the sources: \<open>fused(a \<plusminus> b [\<plusminus> c [\<plusminus> d]])\<close> applies the operations from left to
  right, one operand each, on every lane. The lanes wrap modulo \<open>2 ^ w\<close>.
\<close>

fun fused :: "UpdateOperation list \<Rightarrow> 'a::len word \<Rightarrow> 'a word list \<Rightarrow> 'a word" where
  "fused (Add # ops) v (x # xs) = fused ops (v + x) xs"
| "fused (Sub # ops) v (x # xs) = fused ops (v - x) xs"
| "fused _ v _ = v"

section \<open>The incremental kernel\<close>

text \<open>
  \<open>fused_row_reduce\<close> reads every lane of \<open>in\<close> once, combines it with the same lane of
  each row and stores it to \<open>out\<close>. A row is a pointer into a weight array, here the
  function from the lane to the element it points at. The vector registers of the source
  cover the \<open>Width\<close> lanes exactly; the model visits the lanes one by one.
\<close>

definition fused_row_reduce ::
  "nat \<Rightarrow> UpdateOperation list \<Rightarrow> 'a::len word list \<Rightarrow> (nat \<Rightarrow> 'a word) list \<Rightarrow> 'a word list" where
  "fused_row_reduce Width ops inp rows =
     map (\<lambda>i. fused ops (inp ! i) (map (\<lambda>row. row i) rows)) [0..<Width]"

definition to_weight_vector :: "FeatureTransformer \<Rightarrow> IndexType \<Rightarrow> nat \<Rightarrow> 16 word" where
  "to_weight_vector ft index = (\<lambda>i. weights ft (index * Dimensions ft + i))"

definition to_psqt_weight_vector :: "FeatureTransformer \<Rightarrow> IndexType \<Rightarrow> nat \<Rightarrow> 32 word" where
  "to_psqt_weight_vector ft index = (\<lambda>i. psqtWeights ft (index * PSQTBuckets + i))"

text \<open>\<open>AccumulatorUpdateContext::apply\<close>, with \<open>from\<close> and \<open>to\<close> passed explicitly.\<close>

definition apply_ctx ::
  "Color \<Rightarrow> accPtr \<Rightarrow> FeatureTransformer \<Rightarrow> 'dp AccumulatorState \<Rightarrow> 'dp AccumulatorState
   \<Rightarrow> UpdateOperation list \<Rightarrow> IndexType list \<Rightarrow> 'dp AccumulatorState" where
  "apply_ctx Perspective ap ft from to ops indices =
     (let dense = fused_row_reduce (Dimensions ft) ops
                    (accumulation (acc_of ap from) Perspective)
                    (map (to_weight_vector ft) indices);
          to1 = acc_store ap ((acc_of ap to)
                  \<lparr>accumulation := (accumulation (acc_of ap to))(Perspective := dense)\<rparr>) to;
          psqt = fused_row_reduce PSQTBuckets ops
                    (psqtAccumulation (acc_of ap from) Perspective)
                    (map (to_psqt_weight_vector ft) indices)
      in acc_store ap ((acc_of ap to1)
           \<lparr>psqtAccumulation := (psqtAccumulation (acc_of ap to1))(Perspective := psqt)\<rparr>) to1)"

definition set_computed :: "Color \<Rightarrow> accPtr \<Rightarrow> 'dp AccumulatorState \<Rightarrow> 'dp AccumulatorState" where
  "set_computed Perspective ap st =
     acc_store ap ((acc_of ap st)\<lparr>computed := (computed (acc_of ap st))(Perspective := True)\<rparr>) st"

text \<open>
  \<open>update_accumulator_incremental\<close>. Every \<open>assert\<close> of the source is a branch that
  returns \<open>AssertionFailed\<close>. Going \<open>BACKWARD\<close> the two output lists of
  \<open>append_changed_indices\<close> are received in swapped roles.
\<close>

definition update_accumulator_incremental ::
  "'dp FeatureSet \<Rightarrow> Color \<Rightarrow> IncUpdateDirection \<Rightarrow> accPtr \<Rightarrow> FeatureTransformer \<Rightarrow> Square
   \<Rightarrow> 'dp AccumulatorState \<Rightarrow> 'dp AccumulatorState \<Rightarrow> error + 'dp AccumulatorState" where
  "update_accumulator_incremental fs Perspective Direction ap featureTransformer ksq
       target_state computed_state =
     (let Forward = (Direction = FORWARD); Backward = (Direction = BACKWARD) in
      if \<not> computed (acc_of ap computed_state) Perspective then Inl AssertionFailed
      else if computed (acc_of ap target_state) Perspective then Inl AssertionFailed
      else
        let (removed, added) =
              (if Forward
               then append_changed_indices fs Perspective ksq (dirtyPiece target_state)
               else (case append_changed_indices fs Perspective ksq (dirtyPiece computed_state)
                     of (added', removed') \<Rightarrow> (removed', added')))
        in
        if \<not> (length added = 1 \<or> length added = 2) then Inl AssertionFailed
        else if \<not> (length removed = 1 \<or> length removed = 2) then Inl AssertionFailed
        else if Forward \<and> \<not> length added \<le> length removed then Inl AssertionFailed
        else if \<not> Forward \<and> \<not> length removed \<le> length added then Inl AssertionFailed
        else
          let app = apply_ctx Perspective ap featureTransformer computed_state target_state in
          (if (Forward \<and> length removed = 1) \<or> (Backward \<and> length added = 1) then
             if \<not> (length added = 1 \<and> length removed = 1) then Inl AssertionFailed
             else Inr (set_computed Perspective ap
                         (app [Add, Sub] [added ! 0, removed ! 0]))
           else if Forward \<and> length added = 1 then
             if \<not> length removed = 2 then Inl AssertionFailed
             else Inr (set_computed Perspective ap
                         (app [Add, Sub, Sub] [added ! 0, removed ! 0, removed ! 1]))
           else if Backward \<and> length removed = 1 then
             if \<not> length added = 2 then Inl AssertionFailed
             else Inr (set_computed Perspective ap
                         (app [Add, Add, Sub] [added ! 0, added ! 1, removed ! 0]))
           else
             if \<not> (length added = 2 \<and> length removed = 2) then Inl AssertionFailed
             else Inr (set_computed Perspective ap
                         (app [Add, Add, Sub, Sub]
                            [added ! 0, added ! 1, removed ! 0, removed ! 1]))))"

section \<open>The refresh kernel\<close>

record CacheEntry =
  entry_accumulation :: "16 word list"
  entry_psqtAccumulation :: "32 word list"
  byColorBB :: "Color \<Rightarrow> Bitboard"
  byTypeBB :: "PieceType \<Rightarrow> Bitboard"

type_synonym Cache = "Square \<Rightarrow> Color \<Rightarrow> CacheEntry"

definition colors :: "Color list" where
  "colors = [WHITE, BLACK]"

definition piece_types :: "PieceType list" where
  "piece_types = [PAWN, KNIGHT, BISHOP, ROOK, QUEEN, KING]"

definition make_piece :: "Color \<Rightarrow> PieceType \<Rightarrow> Piece" where
  "make_piece c pt = (c, pt)"

text \<open>
  Modelled from the spec: \<open>lsb\<close> and \<open>pop_lsb\<close> of the bitboard header, which is not
  among the sources. \<open>pop_lsb\<close> returns the least square of a nonempty bitboard and
  removes it, so that the loop \<open>while (b) { sq = pop_lsb(b); ... }\<close> visits each square
  of the bitboard once.
\<close>

definition lsb :: "Bitboard \<Rightarrow> Square" where
  "lsb b = hd (filter (bit b) [0..<64])"

definition pop_lsb :: "Bitboard \<Rightarrow> Square \<times> Bitboard" where
  "pop_lsb b = (let s = lsb b in (s, unset_bit s b))"

text \<open>
  \<open>while (bb) { Square sq = pop_lsb(bb); list.push_back(make_index(sq, piece, ksq)); }\<close>
  with the index computation passed as \<open>f\<close>.
\<close>

function push_squares :: "(Square \<Rightarrow> IndexType) \<Rightarrow> Bitboard \<Rightarrow> IndexType list \<Rightarrow> IndexType list" where
  "push_squares f bb out =
     (if bb \<noteq> 0 then (case pop_lsb bb of (sq, bb') \<Rightarrow> push_squares f bb' (out @ [f sq]))
      else out)"
  by pat_completeness auto
termination
proof (relation "measure (\<lambda>(f, bb, out). length (filter (bit bb) [0..<64]))", simp)
  fix f :: "Square \<Rightarrow> IndexType" and bb :: Bitboard and out :: "IndexType list" and sq bb'
  assume nz: "bb \<noteq> 0" and p: "(sq, bb') = pop_lsb bb"
  from nz obtain n where n: "bit bb n"
    by (auto simp: bit_eq_iff)
  then have "n < 64"
    using bit_imp_le_length [of bb n] by simp
  with n have ne: "filter (bit bb) [0..<64] \<noteq> []"
    by (auto simp: filter_empty_conv)
  then have mem: "lsb bb \<in> set (filter (bit bb) [0..<64])"
    by (simp add: lsb_def del: set_filter)
  have "filter (bit (unset_bit (lsb bb) bb)) [0..<64]
        = filter (\<lambda>m. m \<noteq> lsb bb) (filter (bit bb) [0..<64])"
    by (auto simp: bit_unset_bit_iff intro: filter_cong)
  moreover have "length (filter (\<lambda>m. m \<noteq> lsb bb) (filter (bit bb) [0..<64]))
                 < length (filter (bit bb) [0..<64])"
    using mem by (intro length_filter_less [of "lsb bb"]) simp_all
  ultimately show "((f, bb', out @ [f sq]), (f, bb, out))
        \<in> measure (\<lambda>(f, bb, out). length (filter (bit bb) [0..<64]))"
    using p by (simp add: pop_lsb_def Let_def)
qed

declare push_squares.simps [simp del]

text \<open>
  The first loop nest of \<open>update_accumulator_refresh_cache\<close>: for each colour and each
  piece type, the squares that left and the squares that entered since the entry was
  stored. The result is the pair \<open>(removed, added)\<close>.
\<close>

definition refresh_pair ::
  "'dp FeatureSet \<Rightarrow> Color \<Rightarrow> Square \<Rightarrow> CacheEntry \<Rightarrow> Position \<Rightarrow> Color \<Rightarrow> PieceType
   \<Rightarrow> IndexType list \<times> IndexType list \<Rightarrow> IndexType list \<times> IndexType list" where
  "refresh_pair fs Perspective ksq entry pos c pt out =
     (case out of (removed, added) \<Rightarrow>
      let piece = make_piece c pt;
          oldBB = byColorBB entry c AND byTypeBB entry pt;
          newBB = pieces_c_pt pos c pt;
          toRemove = oldBB AND NOT newBB;
          toAdd = newBB AND NOT oldBB
      in (push_squares (\<lambda>sq. make_index fs Perspective sq piece ksq) toRemove removed,
          push_squares (\<lambda>sq. make_index fs Perspective sq piece ksq) toAdd added))"

definition refresh_lists ::
  "'dp FeatureSet \<Rightarrow> Color \<Rightarrow> Square \<Rightarrow> CacheEntry \<Rightarrow> Position
   \<Rightarrow> IndexType list \<times> IndexType list" where
  "refresh_lists fs Perspective ksq entry pos =
     fold (\<lambda>c. fold (\<lambda>pt. refresh_pair fs Perspective ksq entry pos c pt) piece_types)
       colors ([], [])"

text \<open>
  The \<open>VECTOR\<close> branch, for one lane \<open>l\<close> of the dense vector: the register starts from
  the entry, takes one fused add and subtract per index pair, then either one fused
  triple (\<open>combineLast3\<close>) or the left-over subtractions and additions. The loop variable
  \<open>i\<close> is shared by the loops, as in the source.
\<close>

definition refresh_lane_vector ::
  "FeatureTransformer \<Rightarrow> IndexType list \<Rightarrow> IndexType list \<Rightarrow> 16 word list \<Rightarrow> nat \<Rightarrow> 16 word" where
  "refresh_lane_vector ft removed added entry_acc l =
     (let combineLast3 = (\<bar>int (length removed) - int (length added)\<bar> = 1
                          \<and> length removed + length added > 2);
          column = (\<lambda>index. weights ft (Dimensions ft * index + l));
          acc0 = entry_acc ! l;
          i1 = min (length removed) (length added) - (if combineLast3 then 1 else 0);
          acc1 = fold (\<lambda>i acc. fused [Add, Sub] acc [column (added ! i), column (removed ! i)])
                   [0..<i1] acc0
      in if combineLast3 then
           (if length removed > length added
            then fused [Add, Sub, Sub] acc1
                   [column (added ! i1), column (removed ! i1), column (removed ! (i1 + 1))]
            else fused [Add, Add, Sub] acc1
                   [column (added ! i1), column (added ! (i1 + 1)), column (removed ! i1)])
         else
           (let acc2 = fold (\<lambda>i acc. acc - column (removed ! i)) [i1..<length removed] acc1;
                i2 = max i1 (length removed)
            in fold (\<lambda>i acc. acc + column (added ! i)) [i2..<length added] acc2))"

definition refresh_psqt_lane_vector ::
  "FeatureTransformer \<Rightarrow> IndexType list \<Rightarrow> IndexType list \<Rightarrow> 32 word list \<Rightarrow> nat \<Rightarrow> 32 word" where
  "refresh_psqt_lane_vector ft removed added entry_psqt l =
     (let column = (\<lambda>index. psqtWeights ft (PSQTBuckets * index + l));
          psqt0 = entry_psqt ! l;
          psqt1 = fold (\<lambda>i psqt. psqt - column (removed ! i)) [0..<length removed] psqt0
      in fold (\<lambda>i psqt. psqt + column (added ! i)) [0..<length added] psqt1)"

text \<open>
  The scalar branch: for each removed index every element of the entry is decreased in
  place by the column's element, then likewise increased for each added index.
\<close>

definition sub_column :: "(nat \<Rightarrow> 'a::len word) \<Rightarrow> nat \<Rightarrow> nat \<Rightarrow> 'a word list \<Rightarrow> 'a word list" where
  "sub_column w offset n acc = fold (\<lambda>j a. a[j := a ! j - w (offset + j)]) [0..<n] acc"

definition add_column :: "(nat \<Rightarrow> 'a::len word) \<Rightarrow> nat \<Rightarrow> nat \<Rightarrow> 'a word list \<Rightarrow> 'a word list" where
  "add_column w offset n acc = fold (\<lambda>j a. a[j := a ! j + w (offset + j)]) [0..<n] acc"

definition refresh_entry_scalar ::
  "FeatureTransformer \<Rightarrow> IndexType list \<Rightarrow> IndexType list \<Rightarrow> CacheEntry \<Rightarrow> CacheEntry" where
  "refresh_entry_scalar ft removed added entry =
     (let e1 = fold (\<lambda>index e.
                  e\<lparr>entry_accumulation :=
                      sub_column (weights ft) (Dimensions ft * index) (Dimensions ft)
                        (entry_accumulation e),
                    entry_psqtAccumulation :=
                      sub_column (psqtWeights ft) (index * PSQTBuckets) PSQTBuckets
                        (entry_psqtAccumulation e)\<rparr>) removed entry
      in fold (\<lambda>index e.
                  e\<lparr>entry_accumulation :=
                      add_column (weights ft) (Dimensions ft * index) (Dimensions ft)
                        (entry_accumulation e),
                    entry_psqtAccumulation :=
                      add_column (psqtWeights ft) (index * PSQTBuckets) PSQTBuckets
                        (entry_psqtAccumulation e)\<rparr>) added e1)"

definition refresh_entry_vector ::
  "FeatureTransformer \<Rightarrow> IndexType list \<Rightarrow> IndexType list \<Rightarrow> CacheEntry \<Rightarrow> CacheEntry" where
  "refresh_entry_vector ft removed added entry =
     entry\<lparr>entry_accumulation :=
             map (refresh_lane_vector ft removed added (entry_accumulation entry))
               [0..<Dimensions ft],
           entry_psqtAccumulation :=
             map (refresh_psqt_lane_vector ft removed added (entry_psqtAccumulation entry))
               [0..<PSQTBuckets]\<rparr>"

text \<open>
  \<open>update_accumulator_refresh_cache\<close>. The flag \<open>VECTOR\<close> selects the branch of the
  \<open>#ifdef\<close>. Both branches leave the updated snapshot in the entry and copy it into the
  accumulator of the state; the scalar one copies \<open>Dimensions\<close> and \<open>PSQTBuckets\<close>
  elements with \<open>memcpy\<close>. The result is the state and the cache after the call.
\<close>

definition update_accumulator_refresh_cache ::
  "bool \<Rightarrow> 'dp FeatureSet \<Rightarrow> Color \<Rightarrow> accPtr \<Rightarrow> FeatureTransformer \<Rightarrow> Position
   \<Rightarrow> 'dp AccumulatorState \<Rightarrow> Cache \<Rightarrow> 'dp AccumulatorState \<times> Cache" where
  "update_accumulator_refresh_cache VECTOR fs Perspective ap featureTransformer pos
       accumulatorState cache =
     (let ksq = king_square pos Perspective;
          entry = cache ksq Perspective;
          (removed, added) = refresh_lists fs Perspective ksq entry pos;
          st1 = set_computed Perspective ap accumulatorState;
          entry1 = (if VECTOR then refresh_entry_vector featureTransformer removed added entry
                    else refresh_entry_scalar featureTransformer removed added entry);
          accumulator = acc_of ap st1;
          st2 = acc_store ap (accumulator
                  \<lparr>accumulation := (accumulation accumulator)
                     (Perspective := (if VECTOR then entry_accumulation entry1
                        else take (Dimensions featureTransformer) (entry_accumulation entry1))),
                   psqtAccumulation := (psqtAccumulation accumulator)
                     (Perspective := (if VECTOR then entry_psqtAccumulation entry1
                        else take PSQTBuckets (entry_psqtAccumulation entry1)))\<rparr>) st1;
          entry2 = fold (\<lambda>c e. e\<lparr>byColorBB := (byColorBB e)(c := pieces_c pos c)\<rparr>) colors entry1;
          entry3 = fold (\<lambda>pt e. e\<lparr>byTypeBB := (byTypeBB e)(pt := pieces_pt pos pt)\<rparr>)
                     piece_types entry2
      in (st2, cache(ksq := (cache ksq)(Perspective := entry3))))"

section \<open>The accumulator stack\<close>

record 'dp AccumulatorStack =
  m_accumulators :: "'dp AccumulatorState list"
  m_current_idx :: size_t

record Networks =
  net_big :: FeatureTransformer
  net_small :: FeatureTransformer

record AccumulatorCaches =
  cache_big :: Cache
  cache_small :: Cache

text \<open>
  \<open>m_accumulators[i]\<close>: an index outside the vector is undefined behaviour in the
  source and the error \<open>OutOfBounds\<close> here. \<open>m_accumulators.size()\<close> is a \<open>size_t\<close>.
\<close>

definition at :: "'a list \<Rightarrow> size_t \<Rightarrow> error + 'a" where
  "at xs i = (if unat i < length xs then Inr (xs ! unat i) else Inl OutOfBounds)"

definition size_of :: "'a list \<Rightarrow> size_t" where
  "size_of xs = of_nat (length xs)"

definition latest :: "'dp AccumulatorStack \<Rightarrow> error + 'dp AccumulatorState" where
  "latest s = at (m_accumulators s) (m_current_idx s - 1)"

definition stack_reset ::
  "bool \<Rightarrow> 'dp FeatureSet \<Rightarrow> Position \<Rightarrow> Networks \<Rightarrow> AccumulatorCaches \<Rightarrow> 'dp AccumulatorStack
   \<Rightarrow> error + 'dp AccumulatorStack \<times> AccumulatorCaches" where
  "stack_reset VECTOR fs rootPos networks caches s =
     (case at (m_accumulators s) 0 of
        Inl e \<Rightarrow> Inl e
      | Inr st0 \<Rightarrow>
          (case update_accumulator_refresh_cache VECTOR fs WHITE accumulatorBigPtr
                  (net_big networks) rootPos st0 (cache_big caches) of (st1, big1) \<Rightarrow>
           case update_accumulator_refresh_cache VECTOR fs BLACK accumulatorBigPtr
                  (net_big networks) rootPos st1 big1 of (st2, big2) \<Rightarrow>
           case update_accumulator_refresh_cache VECTOR fs WHITE accumulatorSmallPtr
                  (net_small networks) rootPos st2 (cache_small caches) of (st3, small1) \<Rightarrow>
           case update_accumulator_refresh_cache VECTOR fs BLACK accumulatorSmallPtr
                  (net_small networks) rootPos st3 small1 of (st4, small2) \<Rightarrow>
             Inr (s\<lparr>m_accumulators := (m_accumulators s)[0 := st4], m_current_idx := 1\<rparr>,
                  caches\<lparr>cache_big := big2, cache_small := small2\<rparr>)))"

definition push :: "'dp \<Rightarrow> 'dp AccumulatorStack \<Rightarrow> error + 'dp AccumulatorStack" where
  "push dp s =
     (if \<not> m_current_idx s + 1 < size_of (m_accumulators s) then Inl AssertionFailed
      else case at (m_accumulators s) (m_current_idx s) of
             Inl e \<Rightarrow> Inl e
           | Inr st \<Rightarrow>
               Inr (s\<lparr>m_accumulators := (m_accumulators s)[unat (m_current_idx s) := reset dp st],
                      m_current_idx := m_current_idx s + 1\<rparr>))"

definition pop :: "'dp AccumulatorStack \<Rightarrow> error + 'dp AccumulatorStack" where
  "pop s =
     (if \<not> m_current_idx s > 1 then Inl AssertionFailed
      else Inr (s\<lparr>m_current_idx := m_current_idx s - 1\<rparr>))"

text \<open>
  \<open>find_last_usable_accumulator\<close>: the loop runs \<open>curr_idx\<close> from
  \<open>m_current_idx - 1\<close> down to 1 and returns at the first state that is computed or
  whose dirty piece requires a refresh; otherwise the result is 0.
\<close>

function find_last_usable_loop ::
  "'dp FeatureSet \<Rightarrow> Color \<Rightarrow> accPtr \<Rightarrow> 'dp AccumulatorState list \<Rightarrow> size_t \<Rightarrow> error + size_t" where
  "find_last_usable_loop fs Perspective ap accs curr_idx =
     (if curr_idx > 0 then
        (case at accs curr_idx of
           Inl e \<Rightarrow> Inl e
         | Inr st \<Rightarrow>
             if computed (acc_of ap st) Perspective then Inr curr_idx
             else if requires_refresh fs (dirtyPiece st) Perspective then Inr curr_idx
             else find_last_usable_loop fs Perspective ap accs (curr_idx - 1))
      else Inr 0)"
  by pat_completeness auto
termination
  by (relation "measure (\<lambda>(fs, p, ap, accs, curr_idx). unat curr_idx)")
     (simp_all add: word_greater_zero_iff unat_minus_one unat_gt_0)

declare find_last_usable_loop.simps [simp del]

definition find_last_usable_accumulator ::
  "'dp FeatureSet \<Rightarrow> Color \<Rightarrow> accPtr \<Rightarrow> 'dp AccumulatorStack \<Rightarrow> error + size_t" where
  "find_last_usable_accumulator fs Perspective ap s =
     find_last_usable_loop fs Perspective ap (m_accumulators s) (m_current_idx s - 1)"

text \<open>
  One pass of either propagation loop: the kernel updates \<open>m_accumulators[target]\<close> in
  place from \<open>m_accumulators[source]\<close>.
\<close>

definition update_at ::
  "'dp FeatureSet \<Rightarrow> Color \<Rightarrow> IncUpdateDirection \<Rightarrow> accPtr \<Rightarrow> FeatureTransformer \<Rightarrow> Square
   \<Rightarrow> size_t \<Rightarrow> size_t \<Rightarrow> 'dp AccumulatorState list \<Rightarrow> error + 'dp AccumulatorState list" where
  "update_at fs Perspective Direction ap ft ksq target source accs =
     (case at accs target of
        Inl e \<Rightarrow> Inl e
      | Inr target_state \<Rightarrow>
          (case at accs source of
             Inl e \<Rightarrow> Inl e
           | Inr computed_state \<Rightarrow>
               (case update_accumulator_incremental fs Perspective Direction ap ft ksq
                       target_state computed_state of
                  Inl e \<Rightarrow> Inl e
                | Inr t \<Rightarrow> Inr (accs[unat target := t]))))"

function forward_loop ::
  "'dp FeatureSet \<Rightarrow> Color \<Rightarrow> accPtr \<Rightarrow> FeatureTransformer \<Rightarrow> Square \<Rightarrow> size_t \<Rightarrow> size_t
   \<Rightarrow> 'dp AccumulatorState list \<Rightarrow> error + 'dp AccumulatorState list" where
  "forward_loop fs Perspective ap ft ksq current_idx next accs =
     (if next < current_idx then
        (case update_at fs Perspective FORWARD ap ft ksq next (next - 1) accs of
           Inl e \<Rightarrow> Inl e
         | Inr accs' \<Rightarrow> forward_loop fs Perspective ap ft ksq current_idx (next + 1) accs')
      else Inr accs)"
  by pat_completeness auto
termination
proof (relation "measure (\<lambda>(fs, p, ap, ft, ksq, current_idx, next, accs).
                   unat current_idx - unat next)", simp, simp)
  fix c n :: size_t
  assume "n < c"
  then show "unat c - unat (n + 1) < unat c - unat n"
    by unat_arith
qed

declare forward_loop.simps [simp del]

definition forward_update_incremental ::
  "'dp FeatureSet \<Rightarrow> Color \<Rightarrow> accPtr \<Rightarrow> Position \<Rightarrow> FeatureTransformer \<Rightarrow> size_t
   \<Rightarrow> 'dp AccumulatorStack \<Rightarrow> error + 'dp AccumulatorStack" where
  "forward_update_incremental fs Perspective ap pos ft begin s =
     (if \<not> begin < size_of (m_accumulators s) then Inl AssertionFailed
      else case at (m_accumulators s) begin of
        Inl e \<Rightarrow> Inl e
      | Inr b \<Rightarrow>
          if \<not> computed (acc_of ap b) Perspective then Inl AssertionFailed
          else
            let ksq = king_square pos Perspective in
            (case forward_loop fs Perspective ap ft ksq (m_current_idx s) (begin + 1)
                    (m_accumulators s) of
               Inl e \<Rightarrow> Inl e
             | Inr accs' \<Rightarrow>
                 let s' = s\<lparr>m_accumulators := accs'\<rparr> in
                 (case latest s' of
                    Inl e \<Rightarrow> Inl e
                  | Inr l \<Rightarrow> if \<not> computed (acc_of ap l) Perspective then Inl AssertionFailed
                             else Inr s')))"

text \<open>
  The loop of \<open>backward_update_incremental\<close> counts an unsigned index down while
  \<open>next >= end\<close>; the decrement wraps at zero, so the loop need not end. The result
  \<open>None\<close> stands for a run that does not return.
\<close>

partial_function (option) backward_loop ::
  "'dp FeatureSet \<Rightarrow> Color \<Rightarrow> accPtr \<Rightarrow> FeatureTransformer \<Rightarrow> Square \<Rightarrow> size_t \<Rightarrow> size_t
   \<Rightarrow> 'dp AccumulatorState list \<Rightarrow> (error + 'dp AccumulatorState list) option" where
  "backward_loop fs Perspective ap ft ksq end next accs =
     (if next \<ge> end then
        (case update_at fs Perspective BACKWARD ap ft ksq next (next + 1) accs of
           Inl e \<Rightarrow> Some (Inl e)
         | Inr accs' \<Rightarrow> backward_loop fs Perspective ap ft ksq end (next - 1) accs')
      else Some (Inr accs))"

definition backward_update_incremental ::
  "'dp FeatureSet \<Rightarrow> Color \<Rightarrow> accPtr \<Rightarrow> Position \<Rightarrow> FeatureTransformer \<Rightarrow> size_t
   \<Rightarrow> 'dp AccumulatorStack \<Rightarrow> (error + 'dp AccumulatorStack) option" where
  "backward_update_incremental fs Perspective ap pos ft end s =
     (if \<not> end < size_of (m_accumulators s) then Some (Inl AssertionFailed)
      else if \<not> end < m_current_idx s then Some (Inl AssertionFailed)
      else case latest s of
        Inl e \<Rightarrow> Some (Inl e)
      | Inr l \<Rightarrow>
          if \<not> computed (acc_of ap l) Perspective then Some (Inl AssertionFailed)
          else
            let ksq = king_square pos Perspective in
            (case backward_loop fs Perspective ap ft ksq end (m_current_idx s - 2)
                    (m_accumulators s) of
               None \<Rightarrow> None
             | Some (Inl e) \<Rightarrow> Some (Inl e)
             | Some (Inr accs') \<Rightarrow>
                 (case at accs' end of
                    Inl e \<Rightarrow> Some (Inl e)
                  | Inr a \<Rightarrow> if \<not> computed (acc_of ap a) Perspective
                             then Some (Inl AssertionFailed)
                             else Some (Inr (s\<lparr>m_accumulators := accs'\<rparr>)))))"

definition evaluate_side ::
  "bool \<Rightarrow> 'dp FeatureSet \<Rightarrow> Color \<Rightarrow> accPtr \<Rightarrow> Position \<Rightarrow> FeatureTransformer \<Rightarrow> Cache
   \<Rightarrow> 'dp AccumulatorStack \<Rightarrow> (error + 'dp AccumulatorStack \<times> Cache) option" where
  "evaluate_side VECTOR fs Perspective ap pos ft cache s =
     (case find_last_usable_accumulator fs Perspective ap s of
        Inl e \<Rightarrow> Some (Inl e)
      | Inr last_usable_accum \<Rightarrow>
          (case at (m_accumulators s) last_usable_accum of
             Inl e \<Rightarrow> Some (Inl e)
           | Inr u \<Rightarrow>
               if computed (acc_of ap u) Perspective then
                 (case forward_update_incremental fs Perspective ap pos ft last_usable_accum s of
                    Inl e \<Rightarrow> Some (Inl e)
                  | Inr s' \<Rightarrow> Some (Inr (s', cache)))
               else
                 (case latest s of
                    Inl e \<Rightarrow> Some (Inl e)
                  | Inr l \<Rightarrow>
                      (case update_accumulator_refresh_cache VECTOR fs Perspective ap ft pos l cache
                       of (l', cache') \<Rightarrow>
                         let s1 = s\<lparr>m_accumulators :=
                                      (m_accumulators s)[unat (m_current_idx s - 1) := l']\<rparr> in
                         (case backward_update_incremental fs Perspective ap pos ft
                                 last_usable_accum s1 of
                            None \<Rightarrow> None
                          | Some (Inl e) \<Rightarrow> Some (Inl e)
                          | Some (Inr s2) \<Rightarrow> Some (Inr (s2, cache')))))))"

definition evaluate ::
  "bool \<Rightarrow> 'dp FeatureSet \<Rightarrow> accPtr \<Rightarrow> Position \<Rightarrow> FeatureTransformer \<Rightarrow> Cache
   \<Rightarrow> 'dp AccumulatorStack \<Rightarrow> (error + 'dp AccumulatorStack \<times> Cache) option" where
  "evaluate VECTOR fs ap pos ft cache s =
     (case evaluate_side VECTOR fs WHITE ap pos ft cache s of
        None \<Rightarrow> None
      | Some (Inl e) \<Rightarrow> Some (Inl e)
      | Some (Inr (s1, cache1)) \<Rightarrow> evaluate_side VECTOR fs BLACK ap pos ft cache1 s1)"

section \<open>What the kernels are to compute\<close>

text \<open>
  The definitions of this section follow the words of the specification; the theorems
  compare them with the code above.

  \<open>column_sum w stride idxs k\<close> is the sum over the listed feature indices of lane \<open>k\<close>
  of each feature's column.
\<close>

definition column_sum :: "(nat \<Rightarrow> 'a::len word) \<Rightarrow> nat \<Rightarrow> IndexType list \<Rightarrow> nat \<Rightarrow> 'a word" where
  "column_sum w stride idxs k = sum_list (map (\<lambda>i. w (i * stride + k)) idxs)"

text \<open>
  The lists \<open>(removed, added)\<close> of an incremental update: from the dirty piece of the
  target going forward, from the dirty piece of the source with the two lists swapped
  going backward.
\<close>

definition changed_indices ::
  "'dp FeatureSet \<Rightarrow> Color \<Rightarrow> IncUpdateDirection \<Rightarrow> Square \<Rightarrow> 'dp AccumulatorState
   \<Rightarrow> 'dp AccumulatorState \<Rightarrow> IndexType list \<times> IndexType list" where
  "changed_indices fs p d ksq target source =
     (case d of
        FORWARD \<Rightarrow> append_changed_indices fs p ksq (dirtyPiece target)
      | BACKWARD \<Rightarrow> prod.swap (append_changed_indices fs p ksq (dirtyPiece source)))"

text \<open>
  The contract of \<open>append_changed_indices\<close>: one or two indices in each list, and no
  more added than removed going forward (the inverse going backward).
\<close>

definition sizes_ok :: "IncUpdateDirection \<Rightarrow> IndexType list \<Rightarrow> IndexType list \<Rightarrow> bool" where
  "sizes_ok d removed added \<longleftrightarrow>
     (length added = 1 \<or> length added = 2) \<and> (length removed = 1 \<or> length removed = 2)
     \<and> (case d of FORWARD \<Rightarrow> length added \<le> length removed
                 | BACKWARD \<Rightarrow> length removed \<le> length added)"

definition incremental_result ::
  "Color \<Rightarrow> accPtr \<Rightarrow> FeatureTransformer \<Rightarrow> IndexType list \<Rightarrow> IndexType list
   \<Rightarrow> 'dp AccumulatorState \<Rightarrow> 'dp AccumulatorState \<Rightarrow> 'dp AccumulatorState" where
  "incremental_result p ap ft removed added target source =
     acc_store ap ((acc_of ap target)
       \<lparr>accumulation := (accumulation (acc_of ap target))
          (p := map (\<lambda>k. accumulation (acc_of ap source) p ! k
                          + column_sum (weights ft) (Dimensions ft) added k
                          - column_sum (weights ft) (Dimensions ft) removed k)
                    [0..<Dimensions ft]),
        psqtAccumulation := (psqtAccumulation (acc_of ap target))
          (p := map (\<lambda>k. psqtAccumulation (acc_of ap source) p ! k
                          + column_sum (psqtWeights ft) PSQTBuckets added k
                          - column_sum (psqtWeights ft) PSQTBuckets removed k)
                    [0..<PSQTBuckets]),
        computed := (computed (acc_of ap target))(p := True)\<rparr>) target"

text \<open>
  The features active in a placement of pieces, seen from perspective \<open>p\<close> with the king
  on \<open>ksq\<close>: one index for each colour, piece type and square of that bitboard. The full
  transform sums their columns.
\<close>

definition squares :: "Bitboard \<Rightarrow> Square list" where
  "squares bb = filter (bit bb) [0..<64]"

definition active_indices ::
  "'dp FeatureSet \<Rightarrow> Color \<Rightarrow> Square \<Rightarrow> (Color \<Rightarrow> PieceType \<Rightarrow> Bitboard) \<Rightarrow> IndexType list" where
  "active_indices fs p ksq bbs =
     concat (map (\<lambda>c. concat (map (\<lambda>pt.
        map (\<lambda>sq. make_index fs p sq (make_piece c pt) ksq) (squares (bbs c pt)))
        piece_types)) colors)"

definition full_dense :: "FeatureTransformer \<Rightarrow> IndexType list \<Rightarrow> 16 word list" where
  "full_dense ft idxs = map (column_sum (weights ft) (Dimensions ft) idxs) [0..<Dimensions ft]"

definition full_psqt :: "FeatureTransformer \<Rightarrow> IndexType list \<Rightarrow> 32 word list" where
  "full_psqt ft idxs = map (column_sum (psqtWeights ft) PSQTBuckets idxs) [0..<PSQTBuckets]"

text \<open>The placement stored in a cache entry, and the invariant of the cache.\<close>

definition entry_bbs :: "CacheEntry \<Rightarrow> Color \<Rightarrow> PieceType \<Rightarrow> Bitboard" where
  "entry_bbs e c pt = byColorBB e c AND byTypeBB e pt"

definition cache_entry_inv ::
  "'dp FeatureSet \<Rightarrow> FeatureTransformer \<Rightarrow> Color \<Rightarrow> Square \<Rightarrow> CacheEntry \<Rightarrow> bool" where
  "cache_entry_inv fs ft p ksq e \<longleftrightarrow>
     entry_accumulation e = full_dense ft (active_indices fs p ksq (entry_bbs e))
     \<and> entry_psqtAccumulation e = full_psqt ft (active_indices fs p ksq (entry_bbs e))"

definition cache_inv :: "'dp FeatureSet \<Rightarrow> FeatureTransformer \<Rightarrow> Cache \<Rightarrow> bool" where
  "cache_inv fs ft cache \<longleftrightarrow> (\<forall>ksq p. cache_entry_inv fs ft p ksq (cache ksq p))"

text \<open>
  A position answers \<open>pieces(c, pt)\<close> with the intersection of \<open>pieces(c)\<close> and
  \<open>pieces(pt)\<close>.
\<close>

definition position_ok :: "Position \<Rightarrow> bool" where
  "position_ok pos \<longleftrightarrow>
     list_all (\<lambda>c. list_all (\<lambda>pt. pieces_c_pt pos c pt = pieces_c pos c AND pieces_pt pos pt)
                      piece_types) colors"

text \<open>
  What a refresh is to leave behind: the entry with the removed columns subtracted and
  the added columns added on every lane; the state with the full transform of the
  position in the perspective's slot; the cache entry that describes the position.
\<close>

definition refreshed_entry ::
  "FeatureTransformer \<Rightarrow> IndexType list \<Rightarrow> IndexType list \<Rightarrow> CacheEntry \<Rightarrow> CacheEntry" where
  "refreshed_entry ft removed added e =
     e\<lparr>entry_accumulation :=
         map (\<lambda>k. entry_accumulation e ! k - column_sum (weights ft) (Dimensions ft) removed k
                     + column_sum (weights ft) (Dimensions ft) added k) [0..<Dimensions ft],
       entry_psqtAccumulation :=
         map (\<lambda>k. entry_psqtAccumulation e ! k - column_sum (psqtWeights ft) PSQTBuckets removed k
                     + column_sum (psqtWeights ft) PSQTBuckets added k) [0..<PSQTBuckets]\<rparr>"

definition refreshed_state ::
  "'dp FeatureSet \<Rightarrow> Color \<Rightarrow> accPtr \<Rightarrow> FeatureTransformer \<Rightarrow> Position
   \<Rightarrow> 'dp AccumulatorState \<Rightarrow> 'dp AccumulatorState" where
  "refreshed_state fs p ap ft pos st =
     acc_store ap ((acc_of ap st)
       \<lparr>accumulation := (accumulation (acc_of ap st))
          (p := full_dense ft (active_indices fs p (king_square pos p) (pieces_c_pt pos))),
        psqtAccumulation := (psqtAccumulation (acc_of ap st))
          (p := full_psqt ft (active_indices fs p (king_square pos p) (pieces_c_pt pos))),
        computed := (computed (acc_of ap st))(p := True)\<rparr>) st"

definition refreshed_cache_entry ::
  "'dp FeatureSet \<Rightarrow> Color \<Rightarrow> FeatureTransformer \<Rightarrow> Position \<Rightarrow> CacheEntry" where
  "refreshed_cache_entry fs p ft pos =
     \<lparr>entry_accumulation = full_dense ft (active_indices fs p (king_square pos p) (pieces_c_pt pos)),
      entry_psqtAccumulation = full_psqt ft (active_indices fs p (king_square pos p) (pieces_c_pt pos)),
      byColorBB = pieces_c pos,
      byTypeBB = pieces_pt pos\<rparr>"

text \<open>
  Propagation as the specification words it: the kernel applied along a list of
  (target, source) indices, stopping at the first failure. Forward propagation from \<open>k\<close>
  visits \<open>i = k + 1, \<dots>, c - 1\<close> with source \<open>i - 1\<close>; backward propagation down to \<open>k\<close>
  visits \<open>i = c - 2, \<dots>, k\<close> with source \<open>i + 1\<close>.
\<close>

fun propagate ::
  "'dp FeatureSet \<Rightarrow> Color \<Rightarrow> IncUpdateDirection \<Rightarrow> accPtr \<Rightarrow> FeatureTransformer \<Rightarrow> Square
   \<Rightarrow> (nat \<times> nat) list \<Rightarrow> 'dp AccumulatorState list \<Rightarrow> error + 'dp AccumulatorState list" where
  "propagate fs p d ap ft ksq [] accs = Inr accs"
| "propagate fs p d ap ft ksq ((t, s) # rest) accs =
     (case update_at fs p d ap ft ksq (of_nat t) (of_nat s) accs of
        Inl e \<Rightarrow> Inl e
      | Inr accs' \<Rightarrow> propagate fs p d ap ft ksq rest accs')"

definition forward_pairs :: "nat \<Rightarrow> nat \<Rightarrow> (nat \<times> nat) list" where
  "forward_pairs k c = map (\<lambda>i. (i, i - 1)) [Suc k..<c]"

definition backward_pairs :: "nat \<Rightarrow> nat \<Rightarrow> (nat \<times> nat) list" where
  "backward_pairs k c = map (\<lambda>i. (i, Suc i)) (rev [k..<c - 1])"

text \<open>
  The state a walk back from the latest one stops at: the largest index below
  \<open>m_current_idx\<close> whose state is computed, or is not the root and has a dirty piece that
  requires a refresh; 0 when there is none.
\<close>

definition usable :: "'dp FeatureSet \<Rightarrow> Color \<Rightarrow> accPtr \<Rightarrow> 'dp AccumulatorState list \<Rightarrow> nat \<Rightarrow> bool" where
  "usable fs p ap accs k \<longleftrightarrow>
     computed (acc_of ap (accs ! k)) p \<or> (k > 0 \<and> requires_refresh fs (dirtyPiece (accs ! k)) p)"

definition last_usable :: "'dp FeatureSet \<Rightarrow> Color \<Rightarrow> accPtr \<Rightarrow> 'dp AccumulatorStack \<Rightarrow> nat" where
  "last_usable fs p ap s =
     (case filter (usable fs p ap (m_accumulators s)) (rev [0..<unat (m_current_idx s)]) of
        [] \<Rightarrow> 0
      | k # _ \<Rightarrow> k)"

text \<open>
  The two branches of \<open>evaluate_side\<close> with each loop written as a propagation along
  its list of index pairs; an intermediate form, in terms of the kernels.
\<close>

definition described_evaluate_side ::
  "bool \<Rightarrow> 'dp FeatureSet \<Rightarrow> Color \<Rightarrow> accPtr \<Rightarrow> Position \<Rightarrow> FeatureTransformer \<Rightarrow> Cache
   \<Rightarrow> 'dp AccumulatorStack \<Rightarrow> error + 'dp AccumulatorStack \<times> Cache" where
  "described_evaluate_side V fs p ap pos ft cache s =
     (let accs = m_accumulators s;
          c = unat (m_current_idx s);
          k = last_usable fs p ap s;
          ksq = king_square pos p
      in if computed (acc_of ap (accs ! k)) p then
           (case propagate fs p FORWARD ap ft ksq (forward_pairs k c) accs of
              Inl e \<Rightarrow> Inl e
            | Inr accs' \<Rightarrow> Inr (s\<lparr>m_accumulators := accs'\<rparr>, cache))
         else
           (case update_accumulator_refresh_cache V fs p ap ft pos (accs ! (c - 1)) cache of
              (l, cache') \<Rightarrow>
                (case propagate fs p BACKWARD ap ft ksq (backward_pairs k c) (accs[c - 1 := l]) of
                   Inl e \<Rightarrow> Inl e
                 | Inr accs' \<Rightarrow> Inr (s\<lparr>m_accumulators := accs'\<rparr>, cache'))))"

text \<open>
  The evaluation of one perspective as the specification words it, with no reference to
  either kernel. One pass of incremental propagation into state \<open>t\<close> from state \<open>s\<close>
  takes the index lists from the dirty piece of the target going forward and from the
  dirty piece of the source, that is \<open>states[i+1].dirtyPiece\<close>, going backward; it demands
  a computed source, a target that is not computed and index lists within the contract,
  and leaves in the target the vectors of the source plus the added and minus the removed
  columns. A refresh leaves the full transform of the position in the latest state and
  the description of the position in the cache entry of the king square.
\<close>

definition incremental_pass ::
  "'dp FeatureSet \<Rightarrow> Color \<Rightarrow> IncUpdateDirection \<Rightarrow> accPtr \<Rightarrow> FeatureTransformer \<Rightarrow> Square
   \<Rightarrow> nat \<Rightarrow> nat \<Rightarrow> 'dp AccumulatorState list \<Rightarrow> error + 'dp AccumulatorState list" where
  "incremental_pass fs p d ap ft ksq t s accs =
     (case changed_indices fs p d ksq (accs ! t) (accs ! s) of
        (removed, added) \<Rightarrow>
          if computed (acc_of ap (accs ! s)) p \<and> \<not> computed (acc_of ap (accs ! t)) p
             \<and> sizes_ok d removed added
          then Inr (accs[t := incremental_result p ap ft removed added (accs ! t) (accs ! s)])
          else Inl AssertionFailed)"

fun incremental_passes ::
  "'dp FeatureSet \<Rightarrow> Color \<Rightarrow> IncUpdateDirection \<Rightarrow> accPtr \<Rightarrow> FeatureTransformer \<Rightarrow> Square
   \<Rightarrow> (nat \<times> nat) list \<Rightarrow> 'dp AccumulatorState list \<Rightarrow> error + 'dp AccumulatorState list" where
  "incremental_passes fs p d ap ft ksq [] accs = Inr accs"
| "incremental_passes fs p d ap ft ksq ((t, s) # rest) accs =
     (case incremental_pass fs p d ap ft ksq t s accs of
        Inl e \<Rightarrow> Inl e
      | Inr accs' \<Rightarrow> incremental_passes fs p d ap ft ksq rest accs')"

definition specified_evaluate_side ::
  "'dp FeatureSet \<Rightarrow> Color \<Rightarrow> accPtr \<Rightarrow> Position \<Rightarrow> FeatureTransformer \<Rightarrow> Cache
   \<Rightarrow> 'dp AccumulatorStack \<Rightarrow> error + 'dp AccumulatorStack \<times> Cache" where
  "specified_evaluate_side fs p ap pos ft cache s =
     (let accs = m_accumulators s;
          c = unat (m_current_idx s);
          k = last_usable fs p ap s;
          ksq = king_square pos p
      in if computed (acc_of ap (accs ! k)) p then
           (case incremental_passes fs p FORWARD ap ft ksq (forward_pairs k c) accs of
              Inl e \<Rightarrow> Inl e
            | Inr accs' \<Rightarrow> Inr (s\<lparr>m_accumulators := accs'\<rparr>, cache))
         else
           (case incremental_passes fs p BACKWARD ap ft ksq (backward_pairs k c)
                   (accs[c - 1 := refreshed_state fs p ap ft pos (accs ! (c - 1))]) of
              Inl e \<Rightarrow> Inl e
            | Inr accs' \<Rightarrow>
                Inr (s\<lparr>m_accumulators := accs'\<rparr>,
                     cache(ksq := (cache ksq)(p := refreshed_cache_entry fs p ft pos)))))"

text \<open>
  The indices at which one pass of a propagation loop subscripts \<open>m_accumulators\<close>: the
  target it writes and the source it reads.
\<close>

definition accessed :: "(nat \<times> nat) list \<Rightarrow> nat list" where
  "accessed pairs = concat (map (\<lambda>(t, s). [t, s]) pairs)"

text \<open>
  A search path: the root position, then the position after each pushed move. A stack
  is driven by pushes, pops and evaluations; the position reached by a push is known to
  the caller only and is recorded beside the operation.
\<close>

datatype 'dp stack_op = Push 'dp Position | Pop | Evaluate accPtr Position

fun net_ft :: "Networks \<Rightarrow> accPtr \<Rightarrow> FeatureTransformer" where
  "net_ft networks accumulatorBigPtr = net_big networks"
| "net_ft networks accumulatorSmallPtr = net_small networks"

fun cache_of :: "AccumulatorCaches \<Rightarrow> accPtr \<Rightarrow> Cache" where
  "cache_of caches accumulatorBigPtr = cache_big caches"
| "cache_of caches accumulatorSmallPtr = cache_small caches"

fun cache_store :: "accPtr \<Rightarrow> Cache \<Rightarrow> AccumulatorCaches \<Rightarrow> AccumulatorCaches" where
  "cache_store accumulatorBigPtr c caches = caches\<lparr>cache_big := c\<rparr>"
| "cache_store accumulatorSmallPtr c caches = caches\<lparr>cache_small := c\<rparr>"

type_synonym 'dp world = "'dp AccumulatorStack \<times> AccumulatorCaches \<times> Position list"

fun run_op ::
  "bool \<Rightarrow> 'dp FeatureSet \<Rightarrow> Networks \<Rightarrow> 'dp stack_op \<Rightarrow> 'dp world \<Rightarrow> (error + 'dp world) option" where
  "run_op V fs networks (Push dp pos) (s, caches, path) =
     (case push dp s of
        Inl e \<Rightarrow> Some (Inl e)
      | Inr s' \<Rightarrow> Some (Inr (s', caches, path @ [pos])))"
| "run_op V fs networks Pop (s, caches, path) =
     (case pop s of
        Inl e \<Rightarrow> Some (Inl e)
      | Inr s' \<Rightarrow> Some (Inr (s', caches, butlast path)))"
| "run_op V fs networks (Evaluate ap pos) (s, caches, path) =
     (case evaluate V fs ap pos (net_ft networks ap) (cache_of caches ap) s of
        None \<Rightarrow> None
      | Some (Inl e) \<Rightarrow> Some (Inl e)
      | Some (Inr (s', cache')) \<Rightarrow> Some (Inr (s', cache_store ap cache' caches, path)))"

fun run ::
  "bool \<Rightarrow> 'dp FeatureSet \<Rightarrow> Networks \<Rightarrow> 'dp stack_op list \<Rightarrow> 'dp world
   \<Rightarrow> (error + 'dp world) option" where
  "run V fs networks [] w = Some (Inr w)"
| "run V fs networks (x # xs) w =
     (case run_op V fs networks x w of
        None \<Rightarrow> None
      | Some (Inl e) \<Rightarrow> Some (Inl e)
      | Some (Inr w') \<Rightarrow> run V fs networks xs w')"

text \<open>
  A dirty piece is consistent with the step from \<open>pos\<close> to \<open>pos'\<close> when, for each
  perspective it does not require a refresh for, the king stays and the index lists meet
  the contract of \<open>append_changed_indices\<close> and turn the features active in \<open>pos\<close> into
  those active in \<open>pos'\<close>.
\<close>

definition position_features :: "'dp FeatureSet \<Rightarrow> Color \<Rightarrow> Position \<Rightarrow> IndexType list" where
  "position_features fs p pos = active_indices fs p (king_square pos p) (pieces_c_pt pos)"

definition delta_ok :: "'dp FeatureSet \<Rightarrow> Position \<Rightarrow> 'dp \<Rightarrow> Position \<Rightarrow> bool" where
  "delta_ok fs pos dp pos' \<longleftrightarrow>
     list_all (\<lambda>p.
       if requires_refresh fs dp p then True
       else king_square pos' p = king_square pos p
            \<and> (case append_changed_indices fs p (king_square pos' p) dp of
                  (removed, added) \<Rightarrow>
                    sizes_ok FORWARD removed added
                    \<and> mset (position_features fs p pos') + mset removed
                        = mset (position_features fs p pos) + mset added)) colors"

text \<open>
  The preconditions the caller owes along a sequence of operations: depth within the
  capacity, no pop of the root, legal positions, consistent dirty pieces, and the
  current position passed to each evaluation.
\<close>

fun ops_ok :: "'dp FeatureSet \<Rightarrow> nat \<Rightarrow> Position list \<Rightarrow> 'dp stack_op list \<Rightarrow> bool" where
  "ops_ok fs capacity path [] = True"
| "ops_ok fs capacity path (Push dp pos # xs) =
     (length path + 1 < capacity \<and> position_ok pos \<and> delta_ok fs (last path) dp pos
      \<and> ops_ok fs capacity (path @ [pos]) xs)"
| "ops_ok fs capacity path (Pop # xs) =
     (length path > 1 \<and> ops_ok fs capacity (butlast path) xs)"
| "ops_ok fs capacity path (Evaluate ap pos # xs) =
     (pos = last path \<and> ops_ok fs capacity path xs)"

text \<open>
  Modelled from the spec: the initial state of a cache, which is set up outside this
  file: an all-zero snapshot with zero bitboards in every entry. A from-scratch refresh
  is the refresh kernel run on it.
\<close>

definition initial_cache :: "FeatureTransformer \<Rightarrow> Cache" where
  "initial_cache ft =
     (\<lambda>ksq p. \<lparr>entry_accumulation = replicate (Dimensions ft) 0,
               entry_psqtAccumulation = replicate PSQTBuckets 0,
               byColorBB = (\<lambda>c. 0), byTypeBB = (\<lambda>pt. 0)\<rparr>)"

definition from_scratch ::
  "bool \<Rightarrow> 'dp FeatureSet \<Rightarrow> Color \<Rightarrow> accPtr \<Rightarrow> FeatureTransformer \<Rightarrow> Position
   \<Rightarrow> 'dp AccumulatorState \<Rightarrow> 'dp AccumulatorState" where
  "from_scratch V fs p ap ft pos st =
     fst (update_accumulator_refresh_cache V fs p ap ft pos st (initial_cache ft))"

text \<open>
  The invariant of the stack along a path: the index is at least 1 and within the
  vector, whose size fits a \<open>size_t\<close>; the root is computed; a state below the index
  that is computed for a perspective holds the full transform of the position at its
  ply; and each dirty piece is consistent with the step to its ply.
\<close>

definition acc_correct ::
  "'dp FeatureSet \<Rightarrow> FeatureTransformer \<Rightarrow> Color \<Rightarrow> accPtr \<Rightarrow> Position \<Rightarrow> 'dp AccumulatorState \<Rightarrow> bool" where
  "acc_correct fs ft p ap pos st \<longleftrightarrow>
     accumulation (acc_of ap st) p = full_dense ft (position_features fs p pos)
     \<and> psqtAccumulation (acc_of ap st) p = full_psqt ft (position_features fs p pos)"

definition root_inv :: "'dp AccumulatorStack \<Rightarrow> bool" where
  "root_inv s \<longleftrightarrow>
     1 \<le> m_current_idx s \<and> unat (m_current_idx s) \<le> length (m_accumulators s)
     \<and> length (m_accumulators s) < 2 ^ 64
     \<and> (\<forall>ap p. computed (acc_of ap (m_accumulators s ! 0)) p)"

definition stack_inv :: "'dp FeatureSet \<Rightarrow> Networks \<Rightarrow> Position list \<Rightarrow> 'dp AccumulatorStack \<Rightarrow> bool" where
  "stack_inv fs networks path s \<longleftrightarrow>
     root_inv s \<and> length path = unat (m_current_idx s)
     \<and> (\<forall>i<length path. position_ok (path ! i))
     \<and> (\<forall>i<length path. \<forall>ap p. computed (acc_of ap (m_accumulators s ! i)) p \<longrightarrow>
           acc_correct fs (net_ft networks ap) p ap (path ! i) (m_accumulators s ! i))
     \<and> (\<forall>i<length path. 0 < i \<longrightarrow>
           delta_ok fs (path ! (i - 1)) (dirtyPiece (m_accumulators s ! i)) (path ! i))"

text \<open>
  What an update for one accumulator and one perspective leaves alone: the dirty piece,
  the other accumulator, the other perspective's vectors and flags; a flag that was set
  stays set.
\<close>

definition same_but :: "accPtr \<Rightarrow> Color \<Rightarrow> 'dp AccumulatorState \<Rightarrow> 'dp AccumulatorState \<Rightarrow> bool" where
  "same_but ap p st st' \<longleftrightarrow>
     dirtyPiece st' = dirtyPiece st
     \<and> (\<forall>ap'. ap' \<noteq> ap \<longrightarrow> acc_of ap' st' = acc_of ap' st)
     \<and> (\<forall>p'. p' \<noteq> p \<longrightarrow>
           accumulation (acc_of ap st') p' = accumulation (acc_of ap st) p'
           \<and> psqtAccumulation (acc_of ap st') p' = psqtAccumulation (acc_of ap st) p'
           \<and> computed (acc_of ap st') p' = computed (acc_of ap st) p')
     \<and> (computed (acc_of ap st) p \<longrightarrow> computed (acc_of ap st') p)"

definition frame :: "accPtr \<Rightarrow> Color \<Rightarrow> 'dp AccumulatorState list \<Rightarrow> 'dp AccumulatorState list \<Rightarrow> bool" where
  "frame ap p accs accs' \<longleftrightarrow>
     length accs' = length accs \<and> (\<forall>i<length accs. same_but ap p (accs ! i) (accs' ! i))"

definition path_inv ::
  "'dp FeatureSet \<Rightarrow> FeatureTransformer \<Rightarrow> accPtr \<Rightarrow> Color \<Rightarrow> Position list
   \<Rightarrow> 'dp AccumulatorState list \<Rightarrow> bool" where
  "path_inv fs ft ap p path accs \<longleftrightarrow>
     length path \<le> length accs
     \<and> (\<forall>i<length path. computed (acc_of ap (accs ! i)) p \<longrightarrow>
           acc_correct fs ft p ap (path ! i) (accs ! i))
     \<and> (\<forall>i<length path. 0 < i \<longrightarrow>
           delta_ok fs (path ! (i - 1)) (dirtyPiece (accs ! i)) (path ! i))"

definition caches_inv :: "'dp FeatureSet \<Rightarrow> Networks \<Rightarrow> AccumulatorCaches \<Rightarrow> bool" where
  "caches_inv fs networks caches \<longleftrightarrow>
     cache_inv fs (net_big networks) (cache_big caches)
     \<and> cache_inv fs (net_small networks) (cache_small caches)"

section \<open>A small instance\<close>

text \<open>
  A toy feature set and transformer on which the theorems are exercised. A dirty piece
  is one quiet move \<open>(piece, from, to)\<close>; an index depends on the king square, on
  whether the piece is the perspective's own, on its type and on its square; a move of
  the perspective's own king requires a refresh. The transformer has two dense lanes.
\<close>

type_synonym ex_dirty_piece = "Piece \<times> Square \<times> Square"

fun piece_type_code :: "PieceType \<Rightarrow> nat" where
  "piece_type_code PAWN = 0"
| "piece_type_code KNIGHT = 1"
| "piece_type_code BISHOP = 2"
| "piece_type_code ROOK = 3"
| "piece_type_code QUEEN = 4"
| "piece_type_code KING = 5"

definition ex_index :: "Color \<Rightarrow> Square \<Rightarrow> Piece \<Rightarrow> Square \<Rightarrow> IndexType" where
  "ex_index p sq pc ksq =
     ((ksq * 2 + (if fst pc = p then 0 else 1)) * 6 + piece_type_code (snd pc)) * 64 + sq"

definition ex_fs :: "ex_dirty_piece FeatureSet" where
  "ex_fs = \<lparr>make_index = ex_index,
            requires_refresh = (\<lambda>dp p. fst dp = (p, KING)),
            append_changed_indices = (\<lambda>p ksq dp.
               ([ex_index p (fst (snd dp)) (fst dp) ksq],
                [ex_index p (snd (snd dp)) (fst dp) ksq]))\<rparr>"

definition ex_ft :: FeatureTransformer where
  "ex_ft = \<lparr>Dimensions = 2,
            weights = (\<lambda>n. word_of_nat (7 * n + 3)),
            psqtWeights = (\<lambda>n. word_of_nat (5 * n + 1))\<rparr>"

definition ex_acc :: "16 word list \<Rightarrow> 32 word list \<Rightarrow> bool \<Rightarrow> Accumulator" where
  "ex_acc d q b = \<lparr>accumulation = (\<lambda>_. d), psqtAccumulation = (\<lambda>_. q), computed = (\<lambda>_. b)\<rparr>"

definition ex_source :: "ex_dirty_piece AccumulatorState" where
  "ex_source = \<lparr>dirtyPiece = ((BLACK, KNIGHT), 57, 42),
                accumulatorBig = ex_acc [32767, 5] [1, 2, 3, 4, 5, 6, 7, 2147483647] True,
                accumulatorSmall = ex_acc [0, 0] [0, 0, 0, 0, 0, 0, 0, 0] True\<rparr>"

definition ex_target :: "ex_dirty_piece AccumulatorState" where
  "ex_target = \<lparr>dirtyPiece = ((WHITE, PAWN), 12, 28),
                accumulatorBig = ex_acc [9, 9] [9, 9, 9, 9, 9, 9, 9, 9] False,
                accumulatorSmall = ex_acc [0, 0] [0, 0, 0, 0, 0, 0, 0, 0] False\<rparr>"

text \<open>
  The initial cache entry of the specification (an all-zero snapshot with zero
  bitboards), and positions with the two kings and one white pawn.
\<close>

definition ex_entry0 :: CacheEntry where
  "ex_entry0 = \<lparr>entry_accumulation = [0, 0],
                 entry_psqtAccumulation = [0, 0, 0, 0, 0, 0, 0, 0],
                 byColorBB = (\<lambda>_. 0), byTypeBB = (\<lambda>_. 0)\<rparr>"

definition ex_cache0 :: Cache where
  "ex_cache0 = (\<lambda>_ _. ex_entry0)"

definition ex_position :: "Square \<Rightarrow> Square \<Rightarrow> Square \<Rightarrow> Position" where
  "ex_position wk bk wp =
     \<lparr>king_square = (\<lambda>c. case c of WHITE \<Rightarrow> wk | BLACK \<Rightarrow> bk),
      pieces_c = (\<lambda>c. case c of WHITE \<Rightarrow> set_bit wk (set_bit wp 0) | BLACK \<Rightarrow> set_bit bk 0),
      pieces_pt = (\<lambda>pt. case pt of PAWN \<Rightarrow> set_bit wp 0 | KING \<Rightarrow> set_bit wk (set_bit bk 0)
                           | _ \<Rightarrow> 0),
      pieces_c_pt = (\<lambda>c pt.
         (case c of WHITE \<Rightarrow> set_bit wk (set_bit wp 0) | BLACK \<Rightarrow> set_bit bk 0)
         AND (case pt of PAWN \<Rightarrow> set_bit wp 0 | KING \<Rightarrow> set_bit wk (set_bit bk 0) | _ \<Rightarrow> 0))\<rparr>"

text \<open>A stack of five states that has not been reset, two networks and their caches.\<close>

definition ex_stack :: "ex_dirty_piece AccumulatorStack" where
  "ex_stack = \<lparr>m_accumulators = [ex_target, ex_target, ex_target, ex_target, ex_target],
               m_current_idx = 0\<rparr>"

definition ex_nets :: Networks where
  "ex_nets = \<lparr>net_big = ex_ft, net_small = ex_ft\<rparr>"

definition ex_caches :: AccumulatorCaches where
  "ex_caches = \<lparr>cache_big = ex_cache0, cache_small = ex_cache0\<rparr>"

text \<open>
  A path of three moves from the root: the white pawn advances, the black king steps
  aside, the white pawn advances again.
\<close>

definition ex_ops :: "ex_dirty_piece stack_op list" where
  "ex_ops = [Push ((WHITE, PAWN), 12, 28) (ex_position 4 60 28),
             Push ((BLACK, KING), 60, 59) (ex_position 4 59 28),
             Push ((WHITE, PAWN), 28, 36) (ex_position 4 59 36)]"

text \<open>
  The stack and caches after \<open>reset\<close> at the root position, and a second path of three
  moves from the root: the black king steps aside, then the white pawn advances twice.
  \<open>ex_deep\<close> is the stack these three pushes leave: the root as \<open>reset\<close> computed it and
  three states that hold a dirty piece and no computed vector. \<open>ex_deep_refreshed\<close> is
  its vector once \<open>evaluate_side\<close> has refreshed the latest state for the black
  perspective, which is the vector \<open>backward_update_incremental\<close> is called on.
\<close>

definition ex_reset :: "ex_dirty_piece AccumulatorStack \<times> AccumulatorCaches" where
  "ex_reset =
     (case stack_reset True ex_fs (ex_position 4 60 12) ex_nets ex_caches ex_stack of
        Inl e \<Rightarrow> (ex_stack, ex_caches)
      | Inr w \<Rightarrow> w)"

definition ex_ops2 :: "ex_dirty_piece stack_op list" where
  "ex_ops2 = [Push ((BLACK, KING), 60, 59) (ex_position 4 59 12),
              Push ((WHITE, PAWN), 12, 28) (ex_position 4 59 28),
              Push ((WHITE, PAWN), 28, 36) (ex_position 4 59 36)]"

definition ex_deep :: "ex_dirty_piece AccumulatorStack" where
  "ex_deep = \<lparr>m_accumulators =
                [m_accumulators (fst ex_reset) ! 0,
                 reset ((BLACK, KING), 60, 59) ex_target,
                 reset ((WHITE, PAWN), 12, 28) ex_target,
                 reset ((WHITE, PAWN), 28, 36) ex_target,
                 ex_target],
              m_current_idx = 4\<rparr>"

definition ex_deep_refreshed :: "ex_dirty_piece AccumulatorState list" where
  "ex_deep_refreshed =
     (m_accumulators ex_deep)
       [3 := fst (update_accumulator_refresh_cache True ex_fs BLACK accumulatorBigPtr ex_ft
                    (ex_position 4 59 36) (m_accumulators ex_deep ! 3)
                    (cache_big (snd ex_reset)))]"

section \<open>Properties\<close>

subsection \<open>Resetting a state\<close>

text \<open>
  C8. \<open>AccumulatorState::reset(dp)\<close> stores \<open>dp\<close> as the state's dirty piece and clears
  the computed flags of both networks for both perspectives; the dense accumulation
  vectors and the PSQT vectors of both networks are left exactly as they were.
\<close>

theorem reset_frame:
  "dirtyPiece (reset dp st) = dp
   \<and> computed (accumulatorBig (reset dp st)) = (\<lambda>_. False)
   \<and> computed (accumulatorSmall (reset dp st)) = (\<lambda>_. False)
   \<and> accumulation (accumulatorBig (reset dp st)) = accumulation (accumulatorBig st)
   \<and> psqtAccumulation (accumulatorBig (reset dp st)) = psqtAccumulation (accumulatorBig st)
   \<and> accumulation (accumulatorSmall (reset dp st)) = accumulation (accumulatorSmall st)
   \<and> psqtAccumulation (accumulatorSmall (reset dp st)) = psqtAccumulation (accumulatorSmall st)"
  by (simp add: reset_def)

subsection \<open>The incremental kernel\<close>

lemma fused_row_reduce_nth:
  "k < W \<Longrightarrow> fused_row_reduce W ops inp rows ! k = fused ops (inp ! k) (map (\<lambda>row. row k) rows)"
  by (simp add: fused_row_reduce_def)

lemma length_fused_row_reduce: "length (fused_row_reduce W ops inp rows) = W"
  by (simp add: fused_row_reduce_def)

lemma acc_of_acc_store: "acc_of ap (acc_store ap a st) = a"
  by (cases ap) simp_all

lemma acc_of_acc_store_other: "ap' \<noteq> ap \<Longrightarrow> acc_of ap' (acc_store ap a st) = acc_of ap' st"
  by (cases ap; cases ap') simp_all

lemma dirtyPiece_acc_store: "dirtyPiece (acc_store ap a st) = dirtyPiece st"
  by (cases ap) simp_all

lemma acc_store_acc_store: "acc_store ap a (acc_store ap b st) = acc_store ap a st"
  by (cases ap) simp_all

lemma apply_ctx_acc:
  "acc_of ap (apply_ctx p ap ft from to ops indices) =
     (acc_of ap to)\<lparr>accumulation := (accumulation (acc_of ap to))
         (p := fused_row_reduce (Dimensions ft) ops (accumulation (acc_of ap from) p)
                 (map (to_weight_vector ft) indices)),
       psqtAccumulation := (psqtAccumulation (acc_of ap to))
         (p := fused_row_reduce PSQTBuckets ops (psqtAccumulation (acc_of ap from) p)
                 (map (to_psqt_weight_vector ft) indices))\<rparr>"
  by (simp add: apply_ctx_def Let_def acc_of_acc_store)

lemma apply_ctx_other:
  "ap' \<noteq> ap \<Longrightarrow> acc_of ap' (apply_ctx p ap ft from to ops indices) = acc_of ap' to"
  by (simp add: apply_ctx_def Let_def acc_of_acc_store_other)

lemma apply_ctx_dirtyPiece:
  "dirtyPiece (apply_ctx p ap ft from to ops indices) = dirtyPiece to"
  by (simp add: apply_ctx_def Let_def dirtyPiece_acc_store)

lemma set_computed_acc:
  "acc_of ap (set_computed p ap st) = (acc_of ap st)\<lparr>computed := (computed (acc_of ap st))(p := True)\<rparr>"
  by (simp add: set_computed_def acc_of_acc_store)

lemma set_computed_other:
  "ap' \<noteq> ap \<Longrightarrow> acc_of ap' (set_computed p ap st) = acc_of ap' st"
  by (simp add: set_computed_def acc_of_acc_store_other)

lemma set_computed_dirtyPiece: "dirtyPiece (set_computed p ap st) = dirtyPiece st"
  by (simp add: set_computed_def dirtyPiece_acc_store)

lemma state_eqI:
  "dirtyPiece s = dirtyPiece t \<Longrightarrow> accumulatorBig s = accumulatorBig t \<Longrightarrow>
   accumulatorSmall s = accumulatorSmall t \<Longrightarrow> (s :: 'dp AccumulatorState) = t"
  by simp

lemma acc_store_eq:
  "acc_of ap s = a \<Longrightarrow> (\<forall>ap'. ap' \<noteq> ap \<longrightarrow> acc_of ap' s = acc_of ap' t) \<Longrightarrow>
   dirtyPiece s = dirtyPiece t \<Longrightarrow> s = acc_store ap a (t :: 'dp AccumulatorState)"
  by (cases ap) (auto intro!: state_eqI dest: spec[of _ accumulatorBigPtr] spec[of _ accumulatorSmallPtr])

lemma len1: "length xs = Suc 0 \<longleftrightarrow> (\<exists>a. xs = [a])"
  by (cases xs) auto

lemma len2: "length xs = 2 \<longleftrightarrow> (\<exists>a b. xs = [a, b])"
  by (cases xs; cases "tl xs") auto

lemma apply_ctx_set_computed:
  assumes "\<And>k. fused ops (accumulation (acc_of ap source) p ! k)
                  (map (\<lambda>row. row k) (map (to_weight_vector ft) idxs))
              = accumulation (acc_of ap source) p ! k
                          + column_sum (weights ft) (Dimensions ft) added k
                          - column_sum (weights ft) (Dimensions ft) removed k"
      and "\<And>k. fused ops (psqtAccumulation (acc_of ap source) p ! k)
                  (map (\<lambda>row. row k) (map (to_psqt_weight_vector ft) idxs))
              = psqtAccumulation (acc_of ap source) p ! k
                          + column_sum (psqtWeights ft) PSQTBuckets added k
                          - column_sum (psqtWeights ft) PSQTBuckets removed k"
  shows "set_computed p ap (apply_ctx p ap ft source target ops idxs)
         = incremental_result p ap ft removed added target source"
  unfolding incremental_result_def
  by (rule acc_store_eq)
     (simp_all add: set_computed_acc set_computed_other set_computed_dirtyPiece apply_ctx_acc
        apply_ctx_other apply_ctx_dirtyPiece fused_row_reduce_def assms del: map_map)

lemma kernel_unfold:
  assumes "computed (acc_of ap source) p" "\<not> computed (acc_of ap target) p"
    and "changed_indices fs p d ksq target source = (removed, added)"
    and "sizes_ok d removed added"
  shows "update_accumulator_incremental fs p d ap ft ksq target source =
           Inr (incremental_result p ap ft removed added target source)"
proof (cases d)
  case FORWARD
  with assms(3) have aci: "append_changed_indices fs p ksq (dirtyPiece target) = (removed, added)"
    by (simp add: changed_indices_def)
  from assms(4) FORWARD consider
      (q) a r where "added = [a]" "removed = [r]"
    | (c) a r0 r1 where "added = [a]" "removed = [r0, r1]"
    | (pc) a0 a1 r0 r1 where "added = [a0, a1]" "removed = [r0, r1]"
    by (auto simp: sizes_ok_def len1 len2)
  then show ?thesis
  proof cases
    case q
    then show ?thesis using assms(1,2) FORWARD aci
      by (simp add: update_accumulator_incremental_def)
         (rule apply_ctx_set_computed; simp add: column_sum_def to_weight_vector_def to_psqt_weight_vector_def)
  next
    case c
    then show ?thesis using assms(1,2) FORWARD aci
      by (simp add: update_accumulator_incremental_def)
         (rule apply_ctx_set_computed; simp add: column_sum_def to_weight_vector_def to_psqt_weight_vector_def algebra_simps)
  next
    case pc
    then show ?thesis using assms(1,2) FORWARD aci
      by (simp add: update_accumulator_incremental_def)
         (rule apply_ctx_set_computed; simp add: column_sum_def to_weight_vector_def to_psqt_weight_vector_def algebra_simps)
  qed
next
  case BACKWARD
  with assms(3) have aci: "append_changed_indices fs p ksq (dirtyPiece source) = (added, removed)"
    by (cases "append_changed_indices fs p ksq (dirtyPiece source)") (simp add: changed_indices_def)
  from assms(4) BACKWARD consider
      (q) a r where "added = [a]" "removed = [r]"
    | (c) a0 a1 r where "added = [a0, a1]" "removed = [r]"
    | (pc) a0 a1 r0 r1 where "added = [a0, a1]" "removed = [r0, r1]"
    by (auto simp: sizes_ok_def len1 len2)
  then show ?thesis
  proof cases
    case q
    then show ?thesis using assms(1,2) BACKWARD aci
      by (simp add: update_accumulator_incremental_def)
         (rule apply_ctx_set_computed; simp add: column_sum_def to_weight_vector_def to_psqt_weight_vector_def)
  next
    case c
    then show ?thesis using assms(1,2) BACKWARD aci
      by (simp add: update_accumulator_incremental_def)
         (rule apply_ctx_set_computed; simp add: column_sum_def to_weight_vector_def to_psqt_weight_vector_def algebra_simps)
  next
    case pc
    then show ?thesis using assms(1,2) BACKWARD aci
      by (simp add: update_accumulator_incremental_def)
         (rule apply_ctx_set_computed; simp add: column_sum_def to_weight_vector_def to_psqt_weight_vector_def algebra_simps)
  qed
qed


lemma incremental_result_acc:
  "acc_of ap (incremental_result p ap ft removed added target source) =
     (acc_of ap target)
       \<lparr>accumulation := (accumulation (acc_of ap target))
          (p := map (\<lambda>k. accumulation (acc_of ap source) p ! k
                          + column_sum (weights ft) (Dimensions ft) added k
                          - column_sum (weights ft) (Dimensions ft) removed k)
                    [0..<Dimensions ft]),
        psqtAccumulation := (psqtAccumulation (acc_of ap target))
          (p := map (\<lambda>k. psqtAccumulation (acc_of ap source) p ! k
                          + column_sum (psqtWeights ft) PSQTBuckets added k
                          - column_sum (psqtWeights ft) PSQTBuckets removed k)
                    [0..<PSQTBuckets]),
        computed := (computed (acc_of ap target))(p := True)\<rparr>"
  by (simp add: incremental_result_def acc_of_acc_store)

lemma incremental_result_other:
  "ap' \<noteq> ap \<Longrightarrow> acc_of ap' (incremental_result p ap ft removed added target source) = acc_of ap' target"
  by (simp add: incremental_result_def acc_of_acc_store_other)

lemma incremental_result_dirtyPiece:
  "dirtyPiece (incremental_result p ap ft removed added target source) = dirtyPiece target"
  by (simp add: incremental_result_def dirtyPiece_acc_store)

text \<open>
  C3. Called with a source that is computed for perspective \<open>p\<close> and a target that is
  not, and with index lists that meet the contract of \<open>append_changed_indices\<close>, the
  incremental kernel returns a target whose lane \<open>k\<close> is the source's lane plus the
  columns of the added indices minus the columns of the removed ones, for the dense and
  for the PSQT vector, and whose computed flag for \<open>p\<close> is set. The lists come from the
  target's dirty piece going forward and, swapped, from the source's going backward.
\<close>

theorem incremental_kernel_computes:
  assumes "computed (acc_of ap source) p" and "\<not> computed (acc_of ap target) p"
    and "changed_indices fs p d ksq target source = (removed, added)"
    and "sizes_ok d removed added"
  shows "\<exists>t. update_accumulator_incremental fs p d ap ft ksq target source = Inr t
     \<and> (\<forall>k<Dimensions ft. accumulation (acc_of ap t) p ! k =
            accumulation (acc_of ap source) p ! k
            + sum_list (map (\<lambda>a. weights ft (a * Dimensions ft + k)) added)
            - sum_list (map (\<lambda>r. weights ft (r * Dimensions ft + k)) removed))
     \<and> (\<forall>b<PSQTBuckets. psqtAccumulation (acc_of ap t) p ! b =
            psqtAccumulation (acc_of ap source) p ! b
            + sum_list (map (\<lambda>a. psqtWeights ft (a * PSQTBuckets + b)) added)
            - sum_list (map (\<lambda>r. psqtWeights ft (r * PSQTBuckets + b)) removed))
     \<and> computed (acc_of ap t) p"
  using kernel_unfold [OF assms, of ft]
  by (simp add: incremental_result_acc column_sum_def)

theorem incremental_kernel_computes_witness:
  "computed (acc_of accumulatorBigPtr ex_source) WHITE
   \<and> \<not> computed (acc_of accumulatorBigPtr ex_target) WHITE
   \<and> changed_indices ex_fs WHITE FORWARD 4 ex_target ex_source = ([3084], [3100])
   \<and> sizes_ok FORWARD [3084] [3100]
   \<and> (\<exists>t. update_accumulator_incremental ex_fs WHITE FORWARD accumulatorBigPtr ex_ft 4
              ex_target ex_source = Inr t
        \<and> (\<forall>k<Dimensions ex_ft. accumulation (acc_of accumulatorBigPtr t) WHITE ! k =
              accumulation (acc_of accumulatorBigPtr ex_source) WHITE ! k
              + sum_list (map (\<lambda>a. weights ex_ft (a * Dimensions ex_ft + k)) [3100])
              - sum_list (map (\<lambda>r. weights ex_ft (r * Dimensions ex_ft + k)) [3084]))
        \<and> (\<forall>b<PSQTBuckets. psqtAccumulation (acc_of accumulatorBigPtr t) WHITE ! b =
              psqtAccumulation (acc_of accumulatorBigPtr ex_source) WHITE ! b
              + sum_list (map (\<lambda>a. psqtWeights ex_ft (a * PSQTBuckets + b)) [3100])
              - sum_list (map (\<lambda>r. psqtWeights ex_ft (r * PSQTBuckets + b)) [3084]))
        \<and> computed (acc_of accumulatorBigPtr t) WHITE)"
proof -
  have h1: "computed (acc_of accumulatorBigPtr ex_source) WHITE"
    by (simp add: ex_source_def ex_acc_def)
  have h2: "\<not> computed (acc_of accumulatorBigPtr ex_target) WHITE"
    by (simp add: ex_target_def ex_acc_def)
  have h3: "changed_indices ex_fs WHITE FORWARD 4 ex_target ex_source = ([3084], [3100])"
    by (simp add: changed_indices_def ex_fs_def ex_target_def ex_index_def)
  have h4: "sizes_ok FORWARD [3084] [3100]"
    by (simp add: sizes_ok_def)
  from incremental_kernel_computes [OF h1 h2 h3 h4, of ex_ft] h1 h2 h3 h4
  show ?thesis by blast
qed

text \<open>
  C4. A forward update by a delta followed by a backward update by the same delta gives
  back the dense and the PSQT vector of the state it started from, whatever the weights
  are: the lanes are machine words, so a sum that leaves the range wraps and the
  subtraction wraps back.
\<close>

theorem forward_then_backward_restores:
  assumes "computed (acc_of ap s0) p" and "\<not> computed (acc_of ap t0) p"
    and "\<not> computed (acc_of ap s') p"
    and "append_changed_indices fs p ksq (dirtyPiece t0) = (removed, added)"
    and "sizes_ok FORWARD removed added"
    and "length (accumulation (acc_of ap s0) p) = Dimensions ft"
    and "length (psqtAccumulation (acc_of ap s0) p) = PSQTBuckets"
  shows "\<exists>t1 s1. update_accumulator_incremental fs p FORWARD ap ft ksq t0 s0 = Inr t1
     \<and> update_accumulator_incremental fs p BACKWARD ap ft ksq s' t1 = Inr s1
     \<and> accumulation (acc_of ap s1) p = accumulation (acc_of ap s0) p
     \<and> psqtAccumulation (acc_of ap s1) p = psqtAccumulation (acc_of ap s0) p"
proof -
  let ?t1 = "incremental_result p ap ft removed added t0 s0"
  let ?s1 = "incremental_result p ap ft added removed s' ?t1"
  have fwd: "update_accumulator_incremental fs p FORWARD ap ft ksq t0 s0 = Inr ?t1"
    using assms(1,2,4,5) by (intro kernel_unfold) (simp_all add: changed_indices_def)
  have "computed (acc_of ap ?t1) p"
    by (simp add: incremental_result_acc)
  moreover have "changed_indices fs p BACKWARD ksq s' ?t1 = (added, removed)"
    using assms(4) by (simp add: changed_indices_def incremental_result_dirtyPiece)
  moreover have "sizes_ok BACKWARD added removed"
    using assms(5) by (simp add: sizes_ok_def)
  ultimately have bwd: "update_accumulator_incremental fs p BACKWARD ap ft ksq s' ?t1 = Inr ?s1"
    using assms(3) by (intro kernel_unfold)
  have "accumulation (acc_of ap ?s1) p = map (\<lambda>k. accumulation (acc_of ap s0) p ! k) [0..<Dimensions ft]"
    by (simp add: incremental_result_acc)
  also have "\<dots> = accumulation (acc_of ap s0) p"
    using assms(6) by (metis map_nth)
  finally have d: "accumulation (acc_of ap ?s1) p = accumulation (acc_of ap s0) p" .
  have "psqtAccumulation (acc_of ap ?s1) p = map (\<lambda>k. psqtAccumulation (acc_of ap s0) p ! k) [0..<PSQTBuckets]"
    by (simp add: incremental_result_acc)
  also have "\<dots> = psqtAccumulation (acc_of ap s0) p"
    using assms(7) by (metis map_nth)
  finally have q: "psqtAccumulation (acc_of ap ?s1) p = psqtAccumulation (acc_of ap s0) p" .
  from fwd bwd d q show ?thesis by blast
qed

theorem forward_then_backward_restores_witness:
  "computed (acc_of accumulatorBigPtr ex_source) WHITE
   \<and> \<not> computed (acc_of accumulatorBigPtr ex_target) WHITE
   \<and> \<not> computed (acc_of accumulatorBigPtr ex_target) WHITE
   \<and> append_changed_indices ex_fs WHITE 4 (dirtyPiece ex_target) = ([3084], [3100])
   \<and> sizes_ok FORWARD [3084] [3100]
   \<and> length (accumulation (acc_of accumulatorBigPtr ex_source) WHITE) = Dimensions ex_ft
   \<and> length (psqtAccumulation (acc_of accumulatorBigPtr ex_source) WHITE) = PSQTBuckets
   \<and> (\<exists>t1 s1. update_accumulator_incremental ex_fs WHITE FORWARD accumulatorBigPtr ex_ft 4
                  ex_target ex_source = Inr t1
        \<and> update_accumulator_incremental ex_fs WHITE BACKWARD accumulatorBigPtr ex_ft 4
                  ex_target t1 = Inr s1
        \<and> accumulation (acc_of accumulatorBigPtr s1) WHITE
            = accumulation (acc_of accumulatorBigPtr ex_source) WHITE
        \<and> psqtAccumulation (acc_of accumulatorBigPtr s1) WHITE
            = psqtAccumulation (acc_of accumulatorBigPtr ex_source) WHITE)"
proof -
  have h1: "computed (acc_of accumulatorBigPtr ex_source) WHITE"
    by (simp add: ex_source_def ex_acc_def)
  have h2: "\<not> computed (acc_of accumulatorBigPtr ex_target) WHITE"
    by (simp add: ex_target_def ex_acc_def)
  have h3: "append_changed_indices ex_fs WHITE 4 (dirtyPiece ex_target) = ([3084], [3100])"
    by (simp add: ex_fs_def ex_target_def ex_index_def)
  have h4: "sizes_ok FORWARD [3084] [3100]"
    by (simp add: sizes_ok_def)
  have h5: "length (accumulation (acc_of accumulatorBigPtr ex_source) WHITE) = Dimensions ex_ft"
    by (simp add: ex_source_def ex_acc_def ex_ft_def)
  have h6: "length (psqtAccumulation (acc_of accumulatorBigPtr ex_source) WHITE) = PSQTBuckets"
    by (simp add: ex_source_def ex_acc_def PSQTBuckets_def)
  from forward_then_backward_restores [OF h1 h2 h2 h3 h4 h5 h6] h1 h2 h3 h4 h5 h6
  show ?thesis by blast
qed

subsection \<open>The refresh kernel\<close>

lemma fold_sub_sum:
  "fold (\<lambda>i (a::'a::len word). a - g i) is a0 = a0 - sum_list (map g is)"
  by (induction "is" arbitrary: a0) (simp_all add: algebra_simps)

lemma fold_add_sum:
  "fold (\<lambda>i (a::'a::len word). a + g i) is a0 = a0 + sum_list (map g is)"
  by (induction "is" arbitrary: a0) (simp_all add: algebra_simps)

lemma fold_fused_pair_sum:
  "fold (\<lambda>i (a::'a::len word). a + g i - h i) is a0
     = a0 + sum_list (map g is) - sum_list (map h is)"
  by (induction "is" arbitrary: a0) (simp_all add: algebra_simps)

lemma sum_nth_upt:
  "sum_list (map (\<lambda>i. g (xs ! i)) [0..<length xs]) = sum_list (map g xs)"
proof -
  have "map (\<lambda>i. g (xs ! i)) [0..<length xs] = map g (map ((!) xs) [0..<length xs])"
    by simp
  then show ?thesis by (simp only: map_nth)
qed

lemma sum_upt_split:
  "a \<le> b \<Longrightarrow> b \<le> c \<Longrightarrow>
   sum_list (map g [a..<c]) = sum_list (map g [a..<b]) + (sum_list (map g [b..<c]) :: 'a::len word)"
proof -
  assume "a \<le> b" "b \<le> c"
  then have "[a..<c] = [a..<b] @ [b..<c]"
    by (metis le_Suc_ex upt_add_eq_append)
  then show ?thesis by simp
qed

lemma sum_upt_last:
  "sum_list (map g [a..<Suc b]) = (if a \<le> b then sum_list (map g [a..<b]) + g b else (0 :: 'a::len word))"
  by simp

lemma refresh_lane_vector_eq:
  "refresh_lane_vector ft removed added acc l =
     acc ! l - column_sum (weights ft) (Dimensions ft) removed l
             + column_sum (weights ft) (Dimensions ft) added l"
proof -
  define col where "col = (\<lambda>index. weights ft (Dimensions ft * index + l))"
  define r where "r = length removed"
  define a where "a = length added"
  define R where "R = (\<lambda>i. col (removed ! i))"
  define A where "A = (\<lambda>i. col (added ! i))"
  have cs_r: "column_sum (weights ft) (Dimensions ft) removed l = sum_list (map R [0..<r])"
    unfolding column_sum_def R_def r_def col_def
    by (simp add: sum_nth_upt [of "\<lambda>i. weights ft (Dimensions ft * i + l)"] mult.commute)
  have cs_a: "column_sum (weights ft) (Dimensions ft) added l = sum_list (map A [0..<a])"
    unfolding column_sum_def A_def a_def col_def
    by (simp add: sum_nth_upt [of "\<lambda>i. weights ft (Dimensions ft * i + l)"] mult.commute)
  show ?thesis
  proof (cases "\<bar>int r - int a\<bar> = 1 \<and> r + a > 2")
    case True
    show ?thesis
    proof (cases "r > a")
      case gt: True
      with True obtain n where n: "a = Suc n" "r = Suc (Suc n)"
        by (cases a) auto
      have "refresh_lane_vector ft removed added acc l =
              acc ! l + sum_list (map A [0..<n]) - sum_list (map R [0..<n]) + A n - R n - R (Suc n)"
        using True gt n
        by (simp add: refresh_lane_vector_def Let_def fold_fused_pair_sum
              r_def [symmetric] a_def [symmetric] col_def A_def R_def)
      then show ?thesis
        by (simp add: cs_r cs_a n algebra_simps)
    next
      case le: False
      with True obtain n where n: "r = Suc n" "a = Suc (Suc n)"
        by (cases r) auto
      have "refresh_lane_vector ft removed added acc l =
              acc ! l + sum_list (map A [0..<n]) - sum_list (map R [0..<n]) + A n + A (Suc n) - R n"
        using True le n
        by (simp add: refresh_lane_vector_def Let_def fold_fused_pair_sum
              r_def [symmetric] a_def [symmetric] col_def A_def R_def)
      then show ?thesis
        by (simp add: cs_r cs_a n algebra_simps)
    qed
  next
    case False
    have "refresh_lane_vector ft removed added acc l =
            acc ! l + sum_list (map A [0..<min r a]) - sum_list (map R [0..<min r a])
              - sum_list (map R [min r a..<r]) + sum_list (map A [max (min r a) r..<a])"
    proof -
      have nc: "(\<bar>int (length removed) - int (length added)\<bar> = 1
                 \<and> length removed + length added > 2) = False"
        using False by (simp add: r_def a_def)
      show ?thesis
        unfolding refresh_lane_vector_def Let_def nc
        by (simp add: fold_fused_pair_sum fold_sub_sum fold_add_sum
              r_def [symmetric] a_def [symmetric] col_def A_def R_def)
    qed
    moreover have "sum_list (map R [0..<r]) = sum_list (map R [0..<min r a]) + sum_list (map R [min r a..<r])"
      by (rule sum_upt_split) simp_all
    moreover have "sum_list (map A [0..<a]) = sum_list (map A [0..<min r a]) + sum_list (map A [max (min r a) r..<a])"
    proof (cases "r \<le> a")
      case True
      then have "min r a = r" "max (min r a) r = r" by simp_all
      with True show ?thesis by (simp add: sum_upt_split [symmetric])
    next
      case False
      then have "min r a = a" "max (min r a) r = r" by simp_all
      with False show ?thesis by simp
    qed
    ultimately show ?thesis
      by (simp add: cs_r cs_a algebra_simps)
  qed
qed


lemma refresh_psqt_lane_vector_eq:
  "refresh_psqt_lane_vector ft removed added q l =
     q ! l - column_sum (psqtWeights ft) PSQTBuckets removed l
           + column_sum (psqtWeights ft) PSQTBuckets added l"
  by (simp add: refresh_psqt_lane_vector_def Let_def fold_sub_sum fold_add_sum column_sum_def
        sum_nth_upt [of "\<lambda>i. psqtWeights ft (PSQTBuckets * i + l)"] mult.commute)

lemma fold_update_upt:
  "m \<le> length acc \<Longrightarrow>
   fold (\<lambda>j a. a[j := f j (a ! j)]) [0..<m] acc = map (\<lambda>j. f j (acc ! j)) [0..<m] @ drop m acc"
proof (induction m)
  case 0
  then show ?case by simp
next
  case (Suc m)
  then have m: "m < length acc" by simp
  then have d: "drop m acc = acc ! m # drop (Suc m) acc"
    by (simp add: Cons_nth_drop_Suc)
  from Suc m show ?case
    by (simp add: d nth_append list_update_append)
qed

lemma sub_column_eq:
  "length acc = n \<Longrightarrow> sub_column w off n acc = map (\<lambda>j. acc ! j - w (off + j)) [0..<n]"
  unfolding sub_column_def using fold_update_upt [of n acc "\<lambda>j x. x - w (off + j)"] by simp

lemma add_column_eq:
  "length acc = n \<Longrightarrow> add_column w off n acc = map (\<lambda>j. acc ! j + w (off + j)) [0..<n]"
  unfolding add_column_def using fold_update_upt [of n acc "\<lambda>j x. x + w (off + j)"] by simp

lemma map_nth_len: "length xs = n \<Longrightarrow> map ((!) xs) [0..<n] = xs"
  using map_nth [of xs] by simp

lemma fold_sub_columns:
  "length (entry_accumulation e) = Dimensions ft \<Longrightarrow>
   length (entry_psqtAccumulation e) = PSQTBuckets \<Longrightarrow>
   fold (\<lambda>index e.
          e\<lparr>entry_accumulation :=
              sub_column (weights ft) (Dimensions ft * index) (Dimensions ft) (entry_accumulation e),
            entry_psqtAccumulation :=
              sub_column (psqtWeights ft) (index * PSQTBuckets) PSQTBuckets
                (entry_psqtAccumulation e)\<rparr>) idxs e
   = e\<lparr>entry_accumulation :=
         map (\<lambda>k. entry_accumulation e ! k - column_sum (weights ft) (Dimensions ft) idxs k)
           [0..<Dimensions ft],
       entry_psqtAccumulation :=
         map (\<lambda>k. entry_psqtAccumulation e ! k - column_sum (psqtWeights ft) PSQTBuckets idxs k)
           [0..<PSQTBuckets]\<rparr>"
proof (induction idxs arbitrary: e)
  case Nil
  then show ?case
    by (simp add: column_sum_def map_nth_len)
next
  case (Cons i idxs)
  then show ?case
    by (simp add: sub_column_eq column_sum_def algebra_simps)
qed

lemma fold_add_columns:
  "length (entry_accumulation e) = Dimensions ft \<Longrightarrow>
   length (entry_psqtAccumulation e) = PSQTBuckets \<Longrightarrow>
   fold (\<lambda>index e.
          e\<lparr>entry_accumulation :=
              add_column (weights ft) (Dimensions ft * index) (Dimensions ft) (entry_accumulation e),
            entry_psqtAccumulation :=
              add_column (psqtWeights ft) (index * PSQTBuckets) PSQTBuckets
                (entry_psqtAccumulation e)\<rparr>) idxs e
   = e\<lparr>entry_accumulation :=
         map (\<lambda>k. entry_accumulation e ! k + column_sum (weights ft) (Dimensions ft) idxs k)
           [0..<Dimensions ft],
       entry_psqtAccumulation :=
         map (\<lambda>k. entry_psqtAccumulation e ! k + column_sum (psqtWeights ft) PSQTBuckets idxs k)
           [0..<PSQTBuckets]\<rparr>"
proof (induction idxs arbitrary: e)
  case Nil
  then show ?case
    by (simp add: column_sum_def map_nth_len)
next
  case (Cons i idxs)
  then show ?case
    by (simp add: add_column_eq column_sum_def algebra_simps)
qed

lemma refresh_entry_vector_eq:
  "refresh_entry_vector ft removed added e = refreshed_entry ft removed added e"
  by (simp add: refresh_entry_vector_def refreshed_entry_def refresh_lane_vector_eq
        refresh_psqt_lane_vector_eq)

lemma refresh_entry_scalar_eq:
  assumes "length (entry_accumulation e) = Dimensions ft"
    and "length (entry_psqtAccumulation e) = PSQTBuckets"
  shows "refresh_entry_scalar ft removed added e = refreshed_entry ft removed added e"
  using assms
  by (simp add: refresh_entry_scalar_def Let_def fold_sub_columns fold_add_columns
        refreshed_entry_def)


lemma filter_drop_head:
  "distinct xs \<Longrightarrow> filter P xs = y # ys \<Longrightarrow> filter (\<lambda>m. P m \<and> m \<noteq> y) xs = ys"
proof (induction xs)
  case Nil
  then show ?case by simp
next
  case (Cons x xs)
  show ?case
  proof (cases "P x")
    case True
    with Cons.prems have y: "y = x" and ys: "ys = filter P xs" by simp_all
    from Cons.prems have "x \<notin> set xs" by simp
    then have "filter (\<lambda>m. P m \<and> m \<noteq> x) xs = filter P xs"
      by (intro filter_cong) auto
    with True y ys show ?thesis by simp
  next
    case False
    with Cons show ?thesis by simp
  qed
qed

lemma squares_pop:
  assumes "bb \<noteq> 0"
  shows "squares bb = lsb bb # squares (unset_bit (lsb bb) bb)"
proof -
  from assms obtain n where n: "bit bb n"
    by (auto simp: bit_eq_iff)
  then have "n < 64"
    using bit_imp_le_length [of bb n] by simp
  with n have "filter (bit bb) [0..<64] \<noteq> []"
    by (auto simp: filter_empty_conv)
  then obtain ys where ys: "filter (bit bb) [0..<64] = lsb bb # ys"
    by (cases "filter (bit bb) [0..<64]") (simp_all add: lsb_def)
  have "filter (bit (unset_bit (lsb bb) bb)) [0..<64]
          = filter (\<lambda>m. bit bb m \<and> m \<noteq> lsb bb) [0..<64]"
    by (auto simp: bit_unset_bit_iff intro: filter_cong)
  also have "\<dots> = ys"
    using ys by (intro filter_drop_head) simp_all
  finally show ?thesis
    using ys by (simp add: squares_def)
qed

lemma squares_0: "squares 0 = []"
  by (simp add: squares_def)

lemma push_squares_eq: "push_squares f bb out = out @ map f (squares bb)"
proof (induction f bb out rule: push_squares.induct)
  case (1 f bb out)
  show ?case
  proof (cases "bb = 0")
    case True
    then show ?thesis by (subst push_squares.simps) (simp add: squares_0)
  next
    case False
    with "1" [OF False, of "lsb bb" "unset_bit (lsb bb) bb"] show ?thesis
      by (subst push_squares.simps) (simp add: pop_lsb_def Let_def squares_pop [OF False])
  qed
qed


lemma refresh_lists_eq:
  "refresh_lists fs p ksq e pos =
     (active_indices fs p ksq (\<lambda>c pt. entry_bbs e c pt AND NOT (pieces_c_pt pos c pt)),
      active_indices fs p ksq (\<lambda>c pt. pieces_c_pt pos c pt AND NOT (entry_bbs e c pt)))"
  by (simp add: refresh_lists_def refresh_pair_def colors_def piece_types_def Let_def
        push_squares_eq active_indices_def entry_bbs_def)


lemma sum_filter_diff:
  fixes g :: "nat \<Rightarrow> 'a::len word" and old new :: Bitboard
  shows "sum_list (map g (filter (bit new) xs))
     = sum_list (map g (filter (bit old) xs))
       - sum_list (map g (filter (bit (old AND NOT new)) xs))
       + sum_list (map g (filter (bit (new AND NOT old)) xs))"
proof (induction xs)
  case Nil
  then show ?case by simp
next
  case (Cons x xs)
  have "bit old x \<Longrightarrow> x < 64" "bit new x \<Longrightarrow> x < 64"
    using bit_imp_le_length [of old x] bit_imp_le_length [of new x] by simp_all
  with Cons show ?case
    by (auto simp: bit_and_iff bit_not_iff algebra_simps)
qed

lemma sum_squares_diff:
  fixes g :: "nat \<Rightarrow> 'a::len word"
  shows "sum_list (map g (squares new))
     = sum_list (map g (squares old)) - sum_list (map g (squares (old AND NOT new)))
       + sum_list (map g (squares (new AND NOT old)))"
  unfolding squares_def by (rule sum_filter_diff)

lemma sum_list_sub_add:
  fixes f g h :: "'b \<Rightarrow> 'a::len word"
  shows "sum_list (map (\<lambda>x. f x - g x + h x) xs)
           = sum_list (map f xs) - sum_list (map g xs) + sum_list (map h xs)"
  by (induction xs) (simp_all add: algebra_simps)

lemma sum_list_concat_map:
  fixes xss :: "'a::len word list list"
  shows "sum_list (concat xss) = sum_list (map sum_list xss)"
  by (induction xss) simp_all

lemma column_sum_active:
  "column_sum w stride (active_indices fs p ksq bbs) k =
     sum_list (map (\<lambda>c. sum_list (map (\<lambda>pt.
        sum_list (map (\<lambda>sq. w (make_index fs p sq (make_piece c pt) ksq * stride + k))
                   (squares (bbs c pt)))) piece_types)) colors)"
  by (simp add: column_sum_def active_indices_def map_concat sum_list_concat_map comp_def)

lemma column_sum_active_diff:
  "column_sum w stride (active_indices fs p ksq new) k =
     column_sum w stride (active_indices fs p ksq old) k
     - column_sum w stride (active_indices fs p ksq (\<lambda>c pt. old c pt AND NOT (new c pt))) k
     + column_sum w stride (active_indices fs p ksq (\<lambda>c pt. new c pt AND NOT (old c pt))) k"
proof -
  have step: "\<And>c pt. sum_list (map (\<lambda>sq. w (make_index fs p sq (make_piece c pt) ksq * stride + k))
                         (squares (new c pt)))
      = sum_list (map (\<lambda>sq. w (make_index fs p sq (make_piece c pt) ksq * stride + k))
                         (squares (old c pt)))
        - sum_list (map (\<lambda>sq. w (make_index fs p sq (make_piece c pt) ksq * stride + k))
                         (squares (old c pt AND NOT (new c pt))))
        + sum_list (map (\<lambda>sq. w (make_index fs p sq (make_piece c pt) ksq * stride + k))
                         (squares (new c pt AND NOT (old c pt))))"
    by (rule sum_squares_diff)
  show ?thesis
    unfolding column_sum_active by (simp only: step sum_list_sub_add)
qed

lemma length_full_dense: "length (full_dense ft idxs) = Dimensions ft"
  by (simp add: full_dense_def)

lemma length_full_psqt: "length (full_psqt ft idxs) = PSQTBuckets"
  by (simp add: full_psqt_def)

lemma fold_colors: "fold (\<lambda>c e. e\<lparr>byColorBB := (byColorBB e)(c := f c)\<rparr>) colors e = e\<lparr>byColorBB := f\<rparr>"
proof -
  have "(byColorBB e)(WHITE := f WHITE, BLACK := f BLACK) = f"
    by (rule ext) (case_tac x; simp)
  then show ?thesis by (simp add: colors_def)
qed

lemma fold_piece_types:
  "fold (\<lambda>pt e. e\<lparr>byTypeBB := (byTypeBB e)(pt := f pt)\<rparr>) piece_types e = e\<lparr>byTypeBB := f\<rparr>"
proof -
  have "(byTypeBB e)(PAWN := f PAWN, KNIGHT := f KNIGHT, BISHOP := f BISHOP, ROOK := f ROOK,
          QUEEN := f QUEEN, KING := f KING) = f"
    by (rule ext) (case_tac x; simp)
  then show ?thesis by (simp add: piece_types_def)
qed

lemma refreshed_entry_full:
  assumes "cache_entry_inv fs ft p ksq e"
  shows "refreshed_entry ft
           (active_indices fs p ksq (\<lambda>c pt. entry_bbs e c pt AND NOT (new c pt)))
           (active_indices fs p ksq (\<lambda>c pt. new c pt AND NOT (entry_bbs e c pt))) e
         = e\<lparr>entry_accumulation := full_dense ft (active_indices fs p ksq new),
             entry_psqtAccumulation := full_psqt ft (active_indices fs p ksq new)\<rparr>"
proof -
  have d: "\<And>k. k < Dimensions ft \<Longrightarrow> entry_accumulation e ! k
             = column_sum (weights ft) (Dimensions ft) (active_indices fs p ksq (entry_bbs e)) k"
    using assms by (simp add: cache_entry_inv_def full_dense_def)
  have q: "\<And>k. k < PSQTBuckets \<Longrightarrow> entry_psqtAccumulation e ! k
             = column_sum (psqtWeights ft) PSQTBuckets (active_indices fs p ksq (entry_bbs e)) k"
    using assms by (simp add: cache_entry_inv_def full_psqt_def)
  show ?thesis
    unfolding refreshed_entry_def full_dense_def full_psqt_def
    by (simp add: d q column_sum_active_diff [of _ _ fs p ksq new _ "entry_bbs e"] cong: map_cong)
qed

lemma entry_all_updated:
  "(e :: CacheEntry)\<lparr>entry_accumulation := a, entry_psqtAccumulation := b, byColorBB := c,
      byTypeBB := d\<rparr>
   = \<lparr>entry_accumulation = a, entry_psqtAccumulation = b, byColorBB = c, byTypeBB = d\<rparr>"
  by (cases e) simp

lemma refresh_unfold:
  assumes "cache_entry_inv fs ft p (king_square pos p) (cache (king_square pos p) p)"
  shows "update_accumulator_refresh_cache V fs p ap ft pos st cache =
           (refreshed_state fs p ap ft pos st,
            cache(king_square pos p := (cache (king_square pos p))
                    (p := refreshed_cache_entry fs p ft pos)))"
proof -
  let ?e = "cache (king_square pos p) p"
  have len: "length (entry_accumulation ?e) = Dimensions ft"
            "length (entry_psqtAccumulation ?e) = PSQTBuckets"
    using assms by (simp_all add: cache_entry_inv_def length_full_dense length_full_psqt)
  have st: "acc_store ap ((acc_of ap (set_computed p ap st))
              \<lparr>accumulation := (accumulation (acc_of ap (set_computed p ap st)))(p := d),
               psqtAccumulation := (psqtAccumulation (acc_of ap (set_computed p ap st)))(p := q)\<rparr>)
              (set_computed p ap st)
            = acc_store ap ((acc_of ap st)
              \<lparr>accumulation := (accumulation (acc_of ap st))(p := d),
               psqtAccumulation := (psqtAccumulation (acc_of ap st))(p := q),
               computed := (computed (acc_of ap st))(p := True)\<rparr>) st" for d q
    by (cases "acc_of ap st") (simp add: set_computed_def acc_of_acc_store acc_store_acc_store)
  show ?thesis
    unfolding update_accumulator_refresh_cache_def Let_def refresh_lists_eq
    by (simp add: refresh_entry_vector_eq refresh_entry_scalar_eq len
          refreshed_entry_full [OF assms] fold_colors fold_piece_types st refreshed_state_def
          refreshed_cache_entry_def length_full_dense length_full_psqt entry_all_updated)
qed

lemma ex_cache0_entry_inv: "cache_entry_inv ex_fs ex_ft p ksq (ex_cache0 ksq' p')"
  by (simp add: cache_entry_inv_def ex_cache0_def ex_entry0_def entry_bbs_def active_indices_def
        squares_def full_dense_def full_psqt_def column_sum_def ex_ft_def PSQTBuckets_def
        colors_def piece_types_def upt_rec [of _ "numeral _"] upt_rec [of _ "Suc _"])

lemma refreshed_state_acc:
  "acc_of ap (refreshed_state fs p ap ft pos st) =
     (acc_of ap st)
       \<lparr>accumulation := (accumulation (acc_of ap st))
          (p := full_dense ft (active_indices fs p (king_square pos p) (pieces_c_pt pos))),
        psqtAccumulation := (psqtAccumulation (acc_of ap st))
          (p := full_psqt ft (active_indices fs p (king_square pos p) (pieces_c_pt pos))),
        computed := (computed (acc_of ap st))(p := True)\<rparr>"
  by (simp add: refreshed_state_def acc_of_acc_store)

lemma refreshed_state_other:
  "ap' \<noteq> ap \<Longrightarrow> acc_of ap' (refreshed_state fs p ap ft pos st) = acc_of ap' st"
  by (simp add: refreshed_state_def acc_of_acc_store_other)

lemma refreshed_state_dirtyPiece:
  "dirtyPiece (refreshed_state fs p ap ft pos st) = dirtyPiece st"
  by (simp add: refreshed_state_def dirtyPiece_acc_store)

text \<open>
  C7. For every pair of index lists, the fused path of the refresh (one add and one
  subtract per pass while both lists have indices, one fused triple when the lengths
  differ by one and there are more than two indices, the rest one at a time) leaves the
  same entry as the plain path, which subtracts the column of each removed index and then
  adds the column of each added index.
\<close>

theorem fused_refresh_equals_plain:
  assumes "length (entry_accumulation e) = Dimensions ft"
    and "length (entry_psqtAccumulation e) = PSQTBuckets"
  shows "refresh_entry_vector ft removed added e = refresh_entry_scalar ft removed added e"
  by (simp add: refresh_entry_vector_eq refresh_entry_scalar_eq [OF assms])

theorem fused_refresh_equals_plain_witness:
  "length (entry_accumulation ex_entry0) = Dimensions ex_ft
   \<and> length (entry_psqtAccumulation ex_entry0) = PSQTBuckets
   \<and> refresh_entry_vector ex_ft [3, 5, 8] [2, 4] ex_entry0
       = refresh_entry_scalar ex_ft [3, 5, 8] [2, 4] ex_entry0"
proof -
  have h1: "length (entry_accumulation ex_entry0) = Dimensions ex_ft"
    by (simp add: ex_entry0_def ex_ft_def)
  have h2: "length (entry_psqtAccumulation ex_entry0) = PSQTBuckets"
    by (simp add: ex_entry0_def PSQTBuckets_def)
  from fused_refresh_equals_plain [OF h1 h2] h1 h2 show ?thesis by blast
qed

text \<open>
  C2. When the cache entry selected by the king square and the perspective satisfies the
  invariant of the cache, the refresh leaves in the state, for every lane \<open>k\<close>, the sum
  over the features active in the position of \<open>weights[f, k]\<close>, and likewise for the PSQT
  vector, and marks the perspective computed. The lists it works from are, for each
  colour and piece type, the squares of the entry's bitboard that are not in
  \<open>pos.pieces(c, pt)\<close> and the squares of \<open>pos.pieces(c, pt)\<close> that are not in the
  entry's.
\<close>

theorem refresh_computes_full_transform:
  assumes "cache_entry_inv fs ft p (king_square pos p) (cache (king_square pos p) p)"
  shows "(\<forall>k<Dimensions ft.
            accumulation (acc_of ap (fst (update_accumulator_refresh_cache V fs p ap ft pos st cache))) p ! k
            = sum_list (map (\<lambda>f. weights ft (f * Dimensions ft + k))
                (active_indices fs p (king_square pos p) (pieces_c_pt pos))))
     \<and> (\<forall>b<PSQTBuckets.
            psqtAccumulation (acc_of ap (fst (update_accumulator_refresh_cache V fs p ap ft pos st cache))) p ! b
            = sum_list (map (\<lambda>f. psqtWeights ft (f * PSQTBuckets + b))
                (active_indices fs p (king_square pos p) (pieces_c_pt pos))))
     \<and> computed (acc_of ap (fst (update_accumulator_refresh_cache V fs p ap ft pos st cache))) p
     \<and> refresh_lists fs p (king_square pos p) (cache (king_square pos p) p) pos
         = (active_indices fs p (king_square pos p)
              (\<lambda>c pt. (byColorBB (cache (king_square pos p) p) c
                          AND byTypeBB (cache (king_square pos p) p) pt)
                        AND NOT (pieces_c_pt pos c pt)),
            active_indices fs p (king_square pos p)
              (\<lambda>c pt. pieces_c_pt pos c pt
                        AND NOT (byColorBB (cache (king_square pos p) p) c
                                  AND byTypeBB (cache (king_square pos p) p) pt)))"
  using assms
  by (simp add: refresh_unfold refreshed_state_acc full_dense_def full_psqt_def
        column_sum_def refresh_lists_eq entry_bbs_def)

theorem refresh_computes_full_transform_witness:
  "cache_entry_inv ex_fs ex_ft WHITE (king_square (ex_position 4 60 12) WHITE)
     (ex_cache0 (king_square (ex_position 4 60 12) WHITE) WHITE)
   \<and> accumulation (acc_of accumulatorBigPtr (fst (update_accumulator_refresh_cache True ex_fs
          WHITE accumulatorBigPtr ex_ft (ex_position 4 60 12) ex_target ex_cache0))) WHITE ! 0
       = sum_list (map (\<lambda>f. weights ex_ft (f * Dimensions ex_ft + 0)) [3084, 3396, 3836])
   \<and> accumulation (acc_of accumulatorBigPtr (fst (update_accumulator_refresh_cache True ex_fs
          WHITE accumulatorBigPtr ex_ft (ex_position 4 60 12) ex_target ex_cache0))) WHITE ! 1
       = sum_list (map (\<lambda>f. weights ex_ft (f * Dimensions ex_ft + 1)) [3084, 3396, 3836])
   \<and> psqtAccumulation (acc_of accumulatorBigPtr (fst (update_accumulator_refresh_cache True
          ex_fs WHITE accumulatorBigPtr ex_ft (ex_position 4 60 12) ex_target ex_cache0))) WHITE ! 7
       = sum_list (map (\<lambda>f. psqtWeights ex_ft (f * PSQTBuckets + 7)) [3084, 3396, 3836])
   \<and> computed (acc_of accumulatorBigPtr (fst (update_accumulator_refresh_cache True ex_fs
          WHITE accumulatorBigPtr ex_ft (ex_position 4 60 12) ex_target ex_cache0))) WHITE"
proof -
  have h: "cache_entry_inv ex_fs ex_ft WHITE (king_square (ex_position 4 60 12) WHITE)
     (ex_cache0 (king_square (ex_position 4 60 12) WHITE) WHITE)"
    by (rule ex_cache0_entry_inv)
  have a: "active_indices ex_fs WHITE (king_square (ex_position 4 60 12) WHITE)
             (pieces_c_pt (ex_position 4 60 12)) = [3084, 3396, 3836]"
    by (simp add: active_indices_def ex_position_def colors_def piece_types_def squares_def
          bit_simps upt_rec [of _ "numeral _"] upt_rec [of _ "Suc _"] ex_fs_def ex_index_def
          make_piece_def)
  have k: "0 < Dimensions ex_ft" "1 < Dimensions ex_ft" "7 < PSQTBuckets"
    by (simp_all add: ex_ft_def PSQTBuckets_def)
  from refresh_computes_full_transform [where fs = ex_fs and ft = ex_ft and p = WHITE
      and pos = "ex_position 4 60 12" and cache = ex_cache0 and ap = accumulatorBigPtr
      and V = True and st = ex_target] h k
  show ?thesis unfolding a by blast
qed

subsection \<open>The loops of the stack as propagation along index lists\<close>

lemma unat_succ: "(n :: size_t) < c \<Longrightarrow> unat (n + 1) = Suc (unat n)"
  by unat_arith

lemma unat_pred: "(1 :: size_t) \<le> n \<Longrightarrow> unat (n - 1) = unat n - 1"
  by unat_arith

lemma of_nat_pred: "0 < i \<Longrightarrow> (of_nat (i - 1) :: size_t) = of_nat i - 1"
  by (cases i) simp_all

lemma forward_loop_propagate:
  "1 \<le> unat n \<Longrightarrow>
   forward_loop fs p ap ft ksq cur n accs
     = propagate fs p FORWARD ap ft ksq (map (\<lambda>i. (i, i - 1)) [unat n..<unat cur]) accs"
proof (induction fs p ap ft ksq cur n accs rule: forward_loop.induct)
  case (1 fs p ap ft ksq cur n accs)
  show ?case
  proof (cases "n < cur")
    case True
    then have lt: "unat n < unat cur" by (simp add: word_less_nat_alt)
    have suc: "unat (n + 1) = Suc (unat n)" using True by (rule unat_succ)
    have upt: "[unat n..<unat cur] = unat n # [unat (n + 1)..<unat cur]"
      using lt by (simp add: suc upt_conv_Cons)
    have pred: "(of_nat (unat n - 1) :: size_t) = n - 1"
      using "1.prems" by (simp add: of_nat_pred)
    have rhs: "propagate fs p FORWARD ap ft ksq (map (\<lambda>i. (i, i - 1)) [unat n..<unat cur]) accs
       = (case update_at fs p FORWARD ap ft ksq n (n - 1) accs of
            Inl e \<Rightarrow> Inl e
          | Inr accs' \<Rightarrow> propagate fs p FORWARD ap ft ksq
                           (map (\<lambda>i. (i, i - 1)) [unat (n + 1)..<unat cur]) accs')"
      unfolding upt by (simp del: upt_Suc add: pred [simplified] cong: sum.case_cong)
    have lhs: "forward_loop fs p ap ft ksq cur n accs
       = (case update_at fs p FORWARD ap ft ksq n (n - 1) accs of
            Inl e \<Rightarrow> Inl e
          | Inr accs' \<Rightarrow> forward_loop fs p ap ft ksq cur (n + 1) accs')"
      using True by (subst forward_loop.simps) simp
    show ?thesis
    proof (cases "update_at fs p FORWARD ap ft ksq n (n - 1) accs")
      case (Inl e)
      then show ?thesis by (simp only: lhs rhs sum.case)
    next
      case (Inr accs')
      have "forward_loop fs p ap ft ksq cur (n + 1) accs'
              = propagate fs p FORWARD ap ft ksq (map (\<lambda>i. (i, i - 1)) [unat (n + 1)..<unat cur]) accs'"
        using "1.IH" [OF True Inr] suc by simp
      with Inr show ?thesis by (simp only: lhs rhs sum.case)
    qed
  next
    case False
    then have "\<not> unat n < unat cur" by (simp add: word_less_nat_alt)
    with False show ?thesis
      by (subst forward_loop.simps) simp
  qed
qed

lemma backward_loop_propagate:
  "1 \<le> unat e \<Longrightarrow>
   backward_loop fs p ap ft ksq e n accs
     = Some (propagate fs p BACKWARD ap ft ksq (map (\<lambda>i. (i, Suc i)) (rev [unat e..<Suc (unat n)])) accs)"
proof (induction "Suc (unat n) - unat e" arbitrary: n accs)
  case 0
  then have "\<not> e \<le> n" by (simp add: word_le_nat_alt)
  with 0 show ?case
    by (subst backward_loop.simps) simp
next
  case (Suc d)
  then have le: "unat e \<le> unat n" by simp
  then have en: "e \<le> n" by (simp add: word_le_nat_alt)
  from le Suc.prems have n1: "1 \<le> n" by (simp add: word_le_nat_alt)
  have pred: "unat (n - 1) = unat n - 1" using n1 by (rule unat_pred)
  from le Suc.prems have pos: "0 < unat n" by simp
  have upt: "rev [unat e..<Suc (unat n)] = unat n # rev [unat e..<Suc (unat (n - 1))]"
    using le pos by (simp add: pred)
  have rhs: "propagate fs p BACKWARD ap ft ksq (map (\<lambda>i. (i, Suc i)) (rev [unat e..<Suc (unat n)])) accs
     = (case update_at fs p BACKWARD ap ft ksq n (n + 1) accs of
          Inl x \<Rightarrow> Inl x
        | Inr accs' \<Rightarrow> propagate fs p BACKWARD ap ft ksq
                         (map (\<lambda>i. (i, Suc i)) (rev [unat e..<Suc (unat (n - 1))])) accs')"
    unfolding upt by (simp del: upt_Suc add: add.commute cong: sum.case_cong)
  have lhs: "backward_loop fs p ap ft ksq e n accs
     = (case update_at fs p BACKWARD ap ft ksq n (n + 1) accs of
          Inl x \<Rightarrow> Some (Inl x)
        | Inr accs' \<Rightarrow> backward_loop fs p ap ft ksq e (n - 1) accs')"
    using en by (subst backward_loop.simps) simp
  show ?case
  proof (cases "update_at fs p BACKWARD ap ft ksq n (n + 1) accs")
    case (Inl x)
    then show ?thesis by (simp only: lhs rhs sum.case)
  next
    case (Inr accs')
    have "Suc (unat (n - 1)) - unat e = d"
      using Suc.hyps(2) pred pos by simp
    then have "backward_loop fs p ap ft ksq e (n - 1) accs'
       = Some (propagate fs p BACKWARD ap ft ksq (map (\<lambda>i. (i, Suc i)) (rev [unat e..<Suc (unat (n - 1))])) accs')"
      using Suc.hyps(1) [of "n - 1" accs'] Suc.prems by simp
    with Inr show ?thesis by (simp only: lhs rhs sum.case)
  qed
qed

lemma at_Inr: "unat i < length xs \<Longrightarrow> at xs i = Inr (xs ! unat i)"
  by (simp add: at_def)

lemma at_Inr_iff: "at xs i = Inr x \<longleftrightarrow> unat i < length xs \<and> x = xs ! unat i"
  by (auto simp: at_def)

lemma first_usable_props:
  "filter P (rev [0..<c]) = k # rest \<Longrightarrow> P k \<and> k < c \<and> (\<forall>i. k < i \<and> i < c \<longrightarrow> \<not> P i)"
proof (induction c)
  case 0
  then show ?case by simp
next
  case (Suc c)
  show ?case
  proof (cases "P c")
    case True
    with Suc.prems have "k = c" by simp
    with True show ?thesis by auto
  next
    case False
    with Suc.prems have "filter P (rev [0..<c]) = k # rest" by simp
    from Suc.IH [OF this] False show ?thesis
      by (auto simp: less_Suc_eq)
  qed
qed

lemma no_usable_props:
  "filter P (rev [0..<c]) = [] \<Longrightarrow> \<forall>i<c. \<not> P i"
  by (auto simp: filter_empty_conv)

lemma find_last_usable_loop_eq:
  "unat j < length accs \<Longrightarrow>
   find_last_usable_loop fs p ap accs j
     = Inr (of_nat (case filter (usable fs p ap accs) (rev [0..<Suc (unat j)]) of
                      [] \<Rightarrow> 0 | k # _ \<Rightarrow> k))"
proof (induction fs p ap accs j rule: find_last_usable_loop.induct)
  case (1 fs p ap accs j)
  show ?case
  proof (cases "j > 0")
    case True
    then have pos: "0 < unat j" by (simp add: word_greater_zero_iff unat_gt_0)
    have at: "at accs j = Inr (accs ! unat j)" using "1.prems" by (rule at_Inr)
    show ?thesis
    proof (cases "usable fs p ap accs (unat j)")
      case u: True
      then have "find_last_usable_loop fs p ap accs j = Inr j"
        using True at pos by (subst find_last_usable_loop.simps) (auto simp: usable_def)
      with u show ?thesis by simp
    next
      case nu: False
      from True have j1: "1 \<le> j" by (simp add: word_le_nat_alt word_greater_zero_iff unat_gt_0 Suc_le_eq)
      have pred: "unat (j - 1) = unat j - 1" using j1 by (rule unat_pred)
      have nc: "\<not> computed (acc_of ap (accs ! unat j)) p"
        and nr: "\<not> requires_refresh fs (dirtyPiece (accs ! unat j)) p"
        using nu pos by (simp_all add: usable_def)
      have "find_last_usable_loop fs p ap accs j = find_last_usable_loop fs p ap accs (j - 1)"
        using True at nc nr by (subst find_last_usable_loop.simps) simp
      also have "\<dots> = Inr (of_nat (case filter (usable fs p ap accs) (rev [0..<Suc (unat (j - 1))]) of
                      [] \<Rightarrow> 0 | k # _ \<Rightarrow> k))"
        using "1.IH" [OF True at nc nr] "1.prems" pred by simp
      finally show ?thesis
        using nu pos by (simp add: pred)
    qed
  next
    case False
    then have "j = 0" by (simp add: word_greater_zero_iff)
    then show ?thesis
      by (subst find_last_usable_loop.simps) simp
  qed
qed

lemma find_last_usable_accumulator_eq:
  assumes "1 \<le> m_current_idx s" and "unat (m_current_idx s) \<le> length (m_accumulators s)"
  shows "find_last_usable_accumulator fs p ap s = Inr (of_nat (last_usable fs p ap s))"
proof -
  have pred: "unat (m_current_idx s - 1) = unat (m_current_idx s) - 1"
    using assms(1) by (rule unat_pred)
  from assms(1) have pos: "0 < unat (m_current_idx s)"
    by (simp add: word_le_nat_alt)
  then have "unat (m_current_idx s - 1) < length (m_accumulators s)"
    using assms(2) pred by simp
  from find_last_usable_loop_eq [OF this] pos show ?thesis
    by (simp add: find_last_usable_accumulator_def last_usable_def pred)
qed

lemma last_usable_props:
  assumes "0 < unat (m_current_idx s)"
  shows "last_usable fs p ap s < unat (m_current_idx s)"
    and "\<forall>i. last_usable fs p ap s < i \<and> i < unat (m_current_idx s)
            \<longrightarrow> \<not> usable fs p ap (m_accumulators s) i"
    and "0 < last_usable fs p ap s \<Longrightarrow> usable fs p ap (m_accumulators s) (last_usable fs p ap s)"
    and "computed (acc_of ap (m_accumulators s ! 0)) p \<Longrightarrow>
         usable fs p ap (m_accumulators s) (last_usable fs p ap s)"
proof -
  let ?c = "unat (m_current_idx s)"
  let ?P = "usable fs p ap (m_accumulators s)"
  have all: "last_usable fs p ap s < ?c
     \<and> (\<forall>i. last_usable fs p ap s < i \<and> i < ?c \<longrightarrow> \<not> ?P i)
     \<and> (0 < last_usable fs p ap s \<longrightarrow> ?P (last_usable fs p ap s))
     \<and> (computed (acc_of ap (m_accumulators s ! 0)) p \<longrightarrow> ?P (last_usable fs p ap s))"
  proof (cases "filter ?P (rev [0..<?c])")
    case Nil
    then have lu: "last_usable fs p ap s = 0" by (simp add: last_usable_def)
    from no_usable_props [OF Nil] assms have "\<not> ?P 0" by simp
    then have "\<not> computed (acc_of ap (m_accumulators s ! 0)) p" by (simp add: usable_def)
    with lu assms no_usable_props [OF Nil] show ?thesis by simp
  next
    case (Cons k rest)
    then have lu: "last_usable fs p ap s = k" by (simp add: last_usable_def)
    from first_usable_props [OF Cons] lu show ?thesis by simp
  qed
  from all show "last_usable fs p ap s < ?c" by simp
  from all show "\<forall>i. last_usable fs p ap s < i \<and> i < ?c \<longrightarrow> \<not> ?P i" by simp
  from all show "0 < last_usable fs p ap s \<Longrightarrow> ?P (last_usable fs p ap s)" by simp
  from all show "computed (acc_of ap (m_accumulators s ! 0)) p \<Longrightarrow> ?P (last_usable fs p ap s)" by simp
qed

lemma kernel_fails:
  assumes "changed_indices fs p d ksq target source = (removed, added)"
    and "\<not> (computed (acc_of ap source) p \<and> \<not> computed (acc_of ap target) p
            \<and> sizes_ok d removed added)"
  shows "update_accumulator_incremental fs p d ap ft ksq target source = Inl AssertionFailed"
proof (cases d)
  case FORWARD
  with assms(1) have "append_changed_indices fs p ksq (dirtyPiece target) = (removed, added)"
    by (simp add: changed_indices_def)
  with assms(2) FORWARD show ?thesis
    by (auto simp: update_accumulator_incremental_def sizes_ok_def)
next
  case BACKWARD
  with assms(1) have "append_changed_indices fs p ksq (dirtyPiece source) = (added, removed)"
    by (cases "append_changed_indices fs p ksq (dirtyPiece source)") (simp add: changed_indices_def)
  with assms(2) BACKWARD show ?thesis
    by (auto simp: update_accumulator_incremental_def sizes_ok_def)
qed

lemma kernel_Inr_iff:
  assumes "changed_indices fs p d ksq target source = (removed, added)"
  shows "update_accumulator_incremental fs p d ap ft ksq target source = Inr t
     \<longleftrightarrow> computed (acc_of ap source) p \<and> \<not> computed (acc_of ap target) p
          \<and> sizes_ok d removed added
          \<and> t = incremental_result p ap ft removed added target source"
proof (cases "computed (acc_of ap source) p \<and> \<not> computed (acc_of ap target) p
            \<and> sizes_ok d removed added")
  case True
  then show ?thesis
    using kernel_unfold [OF _ _ assms, of ap ft] by auto
next
  case False
  from kernel_fails [OF assms False, of ft] False show ?thesis by auto
qed

lemma same_but_refl: "same_but ap p st st"
  by (simp add: same_but_def)

lemma same_but_trans: "same_but ap p a b \<Longrightarrow> same_but ap p b c \<Longrightarrow> same_but ap p a c"
  by (simp add: same_but_def)

lemma frame_refl: "frame ap p accs accs"
  by (simp add: frame_def same_but_refl)

lemma frame_trans: "frame ap p a b \<Longrightarrow> frame ap p b c \<Longrightarrow> frame ap p a c"
  by (auto simp: frame_def intro: same_but_trans)

lemma same_but_incremental_result:
  "same_but ap p target (incremental_result p ap ft removed added target source)"
  by (simp add: same_but_def incremental_result_acc incremental_result_other
        incremental_result_dirtyPiece)

lemma same_but_refreshed_state: "same_but ap p st (refreshed_state fs p ap ft pos st)"
  by (simp add: same_but_def refreshed_state_acc refreshed_state_other refreshed_state_dirtyPiece)

lemma frame_update:
  "i < length accs \<Longrightarrow> same_but ap p (accs ! i) st \<Longrightarrow> frame ap p accs (accs[i := st])"
  by (auto simp: frame_def nth_list_update same_but_refl)

lemma same_but_flags:
  "same_but ap p st st' \<Longrightarrow> computed (acc_of ap' st) p' \<Longrightarrow> computed (acc_of ap' st') p'"
  by (cases "ap' = ap"; cases "p' = p") (auto simp: same_but_def)

lemma update_at_Inr:
  assumes "update_at fs p d ap ft ksq t s accs = Inr accs'"
  shows "unat t < length accs \<and> unat s < length accs
     \<and> computed (acc_of ap (accs ! unat s)) p \<and> \<not> computed (acc_of ap (accs ! unat t)) p
     \<and> (\<exists>removed added.
           changed_indices fs p d ksq (accs ! unat t) (accs ! unat s) = (removed, added)
           \<and> sizes_ok d removed added
           \<and> accs' = accs[unat t := incremental_result p ap ft removed added
                                       (accs ! unat t) (accs ! unat s)])"
proof -
  from assms have t: "unat t < length accs" and s: "unat s < length accs"
    by (auto simp: update_at_def at_def split: if_splits sum.splits)
  obtain removed added where
    ci: "changed_indices fs p d ksq (accs ! unat t) (accs ! unat s) = (removed, added)"
    by (cases "changed_indices fs p d ksq (accs ! unat t) (accs ! unat s)")
  from assms t s obtain t' where
    k: "update_accumulator_incremental fs p d ap ft ksq (accs ! unat t) (accs ! unat s) = Inr t'"
    and a: "accs' = accs[unat t := t']"
    by (auto simp: update_at_def at_def split: sum.splits)
  from k kernel_Inr_iff [OF ci, of ap ft t'] a t s ci show ?thesis by auto
qed

lemma update_at_ok:
  assumes "unat t < length accs" and "unat s < length accs"
    and "computed (acc_of ap (accs ! unat s)) p" and "\<not> computed (acc_of ap (accs ! unat t)) p"
    and "changed_indices fs p d ksq (accs ! unat t) (accs ! unat s) = (removed, added)"
    and "sizes_ok d removed added"
  shows "update_at fs p d ap ft ksq t s accs
           = Inr (accs[unat t := incremental_result p ap ft removed added
                                   (accs ! unat t) (accs ! unat s)])"
  using assms by (simp add: update_at_def at_def kernel_unfold)

lemma update_at_frame:
  assumes "update_at fs p d ap ft ksq t s accs = Inr accs'"
  shows "frame ap p accs accs' \<and> computed (acc_of ap (accs' ! unat t)) p"
proof -
  from update_at_Inr [OF assms] obtain removed added where
    t: "unat t < length accs"
    and a: "accs' = accs[unat t := incremental_result p ap ft removed added
                                       (accs ! unat t) (accs ! unat s)]"
    by auto
  from t show ?thesis
    unfolding a by (simp add: frame_update same_but_incremental_result incremental_result_acc)
qed

lemma frame_flags:
  "frame ap p accs accs' \<Longrightarrow> i < length accs \<Longrightarrow> computed (acc_of ap' (accs ! i)) p'
   \<Longrightarrow> computed (acc_of ap' (accs' ! i)) p'"
  by (auto simp: frame_def intro: same_but_flags)

lemma propagate_frame:
  "propagate fs p d ap ft ksq pairs accs = Inr accs' \<Longrightarrow>
   frame ap p accs accs'
   \<and> (\<forall>(t, s) \<in> set pairs. computed (acc_of ap (accs' ! unat (of_nat t :: size_t))) p)"
proof (induction pairs arbitrary: accs)
  case Nil
  then show ?case by (simp add: frame_refl)
next
  case (Cons x pairs)
  obtain t s where x: "x = (t, s)" by (cases x)
  from Cons.prems x obtain accs1 where
    u: "update_at fs p d ap ft ksq (of_nat t) (of_nat s) accs = Inr accs1"
    and r: "propagate fs p d ap ft ksq pairs accs1 = Inr accs'"
    by (auto split: sum.splits)
  from update_at_frame [OF u] have f1: "frame ap p accs accs1"
    and c1: "computed (acc_of ap (accs1 ! unat (of_nat t :: size_t))) p" by simp_all
  from Cons.IH [OF r] have f2: "frame ap p accs1 accs'"
    and c2: "\<forall>(t, s) \<in> set pairs. computed (acc_of ap (accs' ! unat (of_nat t :: size_t))) p"
    by simp_all
  from update_at_Inr [OF u] have "unat (of_nat t :: size_t) < length accs" by simp
  with f1 have "unat (of_nat t :: size_t) < length accs1" by (simp add: frame_def)
  from frame_flags [OF f2 this c1] have "computed (acc_of ap (accs' ! unat (of_nat t :: size_t))) p" .
  with c2 frame_trans [OF f1 f2] x show ?case by simp
qed

lemma refresh_same_but:
  "same_but ap p st (fst (update_accumulator_refresh_cache V fs p ap ft pos st cache))
   \<and> computed (acc_of ap (fst (update_accumulator_refresh_cache V fs p ap ft pos st cache))) p"
  by (simp add: update_accumulator_refresh_cache_def Let_def split_beta same_but_def
        acc_of_acc_store acc_of_acc_store_other dirtyPiece_acc_store set_computed_acc
        set_computed_other set_computed_dirtyPiece)

lemma unat_of_nat_size_t: "k < 2 ^ 64 \<Longrightarrow> unat (of_nat k :: size_t) = k"
  by (simp add: unat_of_nat)

lemma size_of_less:
  "length xs < 2 ^ 64 \<Longrightarrow> k < length xs \<Longrightarrow> (of_nat k :: size_t) < size_of xs"
  by (simp add: size_of_def word_less_nat_alt unat_of_nat_size_t)


lemma evaluate_side_described:
  assumes c1: "1 \<le> m_current_idx s"
    and cl: "unat (m_current_idx s) \<le> length (m_accumulators s)"
    and sz: "length (m_accumulators s) < 2 ^ 64"
    and root: "computed (acc_of ap (m_accumulators s ! 0)) p"
  shows "evaluate_side V fs p ap pos ft cache s
           = Some (described_evaluate_side V fs p ap pos ft cache s)"
proof -
  let ?accs = "m_accumulators s"
  let ?cur = "m_current_idx s"
  let ?c = "unat ?cur"
  let ?k = "last_usable fs p ap s"
  let ?ksq = "king_square pos p"
  from c1 have cpos: "0 < ?c" by (simp add: word_le_nat_alt)
  have kc: "?k < ?c" using cpos by (rule last_usable_props(1))
  have k64: "?k < 2 ^ 64" using kc cl sz by simp
  have uk: "unat (of_nat ?k :: size_t) = ?k" using k64 by (rule unat_of_nat_size_t)
  have klen: "?k < length ?accs" using kc cl by simp
  have find: "find_last_usable_accumulator fs p ap s = Inr (of_nat ?k)"
    using c1 cl by (rule find_last_usable_accumulator_eq)
  have atk: "at ?accs (of_nat ?k) = Inr (?accs ! ?k)"
    using klen by (simp add: at_def uk)
  have pred: "unat (?cur - 1) = ?c - 1" using c1 by (rule unat_pred)
  have lat: "at ?accs (?cur - 1) = Inr (?accs ! (?c - 1))"
    using cpos cl by (simp add: at_def pred)
  show ?thesis
  proof (cases "computed (acc_of ap (?accs ! ?k)) p")
    case True
    have lt: "(of_nat ?k :: size_t) < ?cur" using kc by (simp add: word_less_nat_alt uk)
    have suc: "unat (of_nat ?k + 1 :: size_t) = Suc ?k" using unat_succ [OF lt] uk by simp
    have loop: "forward_loop fs p ap ft ?ksq ?cur (of_nat ?k + 1) ?accs
                  = propagate fs p FORWARD ap ft ?ksq (forward_pairs ?k ?c) ?accs"
      using forward_loop_propagate [of "of_nat ?k + 1" fs p ap ft ?ksq ?cur ?accs]
      by (simp add: suc forward_pairs_def)
    have sizeok: "(of_nat ?k :: size_t) < size_of ?accs" using sz klen by (rule size_of_less)
    show ?thesis
    proof (cases "propagate fs p FORWARD ap ft ?ksq (forward_pairs ?k ?c) ?accs")
      case (Inl e)
      then show ?thesis
        using True find atk sizeok loop
        by (simp add: evaluate_side_def described_evaluate_side_def
              forward_update_incremental_def Let_def)
    next
      case (Inr accs')
      from propagate_frame [OF Inr] have fr: "frame ap p ?accs accs'"
        and tg: "\<forall>(t, s) \<in> set (forward_pairs ?k ?c).
                    computed (acc_of ap (accs' ! unat (of_nat t :: size_t))) p"
        by simp_all
      have len: "length accs' = length ?accs" using fr by (simp add: frame_def)
      have lastc: "computed (acc_of ap (accs' ! (?c - 1))) p"
      proof (cases "?k = ?c - 1")
        case True
        with frame_flags [OF fr klen \<open>computed (acc_of ap (?accs ! ?k)) p\<close>] show ?thesis by simp
      next
        case False
        with kc have "(?c - 1, ?c - 1 - 1) \<in> set (forward_pairs ?k ?c)"
          by (auto simp: forward_pairs_def image_iff)
        with tg have "computed (acc_of ap (accs' ! unat (of_nat (?c - 1) :: size_t))) p"
          by blast
        moreover have "unat (of_nat (?c - 1) :: size_t) = ?c - 1"
          using cl sz by (intro unat_of_nat_size_t) simp
        ultimately show ?thesis by simp
      qed
      have lat': "latest (s\<lparr>m_accumulators := accs'\<rparr>) = Inr (accs' ! (?c - 1))"
        using cpos cl len by (simp add: latest_def at_def pred)
      show ?thesis
        using True find atk sizeok loop Inr lat' lastc
        by (simp add: evaluate_side_def described_evaluate_side_def
              forward_update_incremental_def Let_def)
    qed
  next
    case False
    with root have k0: "0 < ?k" by (cases "?k = 0") simp_all
    then have k1: "1 \<le> unat (of_nat ?k :: size_t)" by (simp add: uk)
    from k0 kc have c2: "2 \<le> ?c" by simp
    then have "(2 :: size_t) \<le> ?cur" by (simp add: word_le_nat_alt)
    then have pred2: "unat (?cur - 2) = ?c - 2" by unat_arith
    obtain l cache' where
      rf: "update_accumulator_refresh_cache V fs p ap ft pos (?accs ! (?c - 1)) cache = (l, cache')"
      by (cases "update_accumulator_refresh_cache V fs p ap ft pos (?accs ! (?c - 1)) cache")
    from refresh_same_but [of ap p "?accs ! (?c - 1)" V fs ft pos cache] rf
    have lc: "computed (acc_of ap l) p" by simp
    let ?accs1 = "?accs[?c - 1 := l]"
    let ?s1 = "s\<lparr>m_accumulators := ?accs1\<rparr>"
    have lat1: "latest ?s1 = Inr l"
      using cpos cl by (simp add: latest_def at_def pred)
    have sizeok: "(of_nat ?k :: size_t) < size_of ?accs1"
      using sz klen by (intro size_of_less) simp_all
    have lt: "(of_nat ?k :: size_t) < ?cur" using kc by (simp add: word_less_nat_alt uk)
    have loop: "backward_loop fs p ap ft ?ksq (of_nat ?k) (?cur - 2) ?accs1
                  = Some (propagate fs p BACKWARD ap ft ?ksq (backward_pairs ?k ?c) ?accs1)"
    proof -
      have "Suc (?c - 2) = ?c - 1" using c2 by simp
      then show ?thesis
        using backward_loop_propagate [OF k1, of fs p ap ft ?ksq "?cur - 2" ?accs1]
        by (simp add: pred2 uk backward_pairs_def)
    qed
    show ?thesis
    proof (cases "propagate fs p BACKWARD ap ft ?ksq (backward_pairs ?k ?c) ?accs1")
      case (Inl e)
      then show ?thesis
        using False find atk lat rf lat1 lc sizeok lt loop
        by (simp add: evaluate_side_def described_evaluate_side_def
              backward_update_incremental_def Let_def pred latest_def)
    next
      case (Inr accs')
      from propagate_frame [OF Inr] have fr: "frame ap p ?accs1 accs'"
        and tg: "\<forall>(t, s) \<in> set (backward_pairs ?k ?c).
                    computed (acc_of ap (accs' ! unat (of_nat t :: size_t))) p"
        by simp_all
      have len: "length accs' = length ?accs" using fr by (simp add: frame_def)
      have kcomp: "computed (acc_of ap (accs' ! ?k)) p"
      proof (cases "?k = ?c - 1")
        case True
        have "computed (acc_of ap (?accs1 ! ?k)) p"
          using True klen lc by simp
        from frame_flags [OF fr _ this] klen show ?thesis by simp
      next
        case False
        with kc have "(?k, Suc ?k) \<in> set (backward_pairs ?k ?c)"
          by (auto simp: backward_pairs_def image_iff)
        with tg have "computed (acc_of ap (accs' ! unat (of_nat ?k :: size_t))) p"
          by blast
        then show ?thesis by (simp add: uk)
      qed
      have atk': "at accs' (of_nat ?k) = Inr (accs' ! ?k)"
        using klen len by (simp add: at_def uk)
      show ?thesis
        using False find atk lat rf lat1 lc sizeok lt loop Inr atk' kcomp
        by (simp add: evaluate_side_def described_evaluate_side_def
              backward_update_incremental_def Let_def pred latest_def)
    qed
  qed
qed

subsection \<open>Propagation keeps the states right\<close>

lemma column_sum_mset:
  "column_sum w st xs k = sum_mset (image_mset (\<lambda>i. w (i * st + k)) (mset xs))"
  by (simp add: column_sum_def sum_mset_sum_list [symmetric] del: sum_mset_sum_list)

lemma column_sum_balance:
  assumes "mset xs + mset r = mset ys + mset a"
  shows "column_sum w st xs k + column_sum w st r k = column_sum w st ys k + column_sum w st a k"
proof -
  have "sum_mset (image_mset (\<lambda>i. w (i * st + k)) (mset xs + mset r))
          = sum_mset (image_mset (\<lambda>i. w (i * st + k)) (mset ys + mset a))"
    using assms by simp
  then show ?thesis by (simp add: column_sum_mset)
qed

lemma if_elseD: "(if c then True else b) \<Longrightarrow> \<not> c \<Longrightarrow> b"
  by simp

lemma delta_okD:
  assumes "delta_ok fs pos dp pos'" and "\<not> requires_refresh fs dp p"
  shows "king_square pos' p = king_square pos p"
    and "sizes_ok FORWARD (fst (append_changed_indices fs p (king_square pos' p) dp))
            (snd (append_changed_indices fs p (king_square pos' p) dp))"
    and "mset (position_features fs p pos')
           + mset (fst (append_changed_indices fs p (king_square pos' p) dp))
         = mset (position_features fs p pos)
           + mset (snd (append_changed_indices fs p (king_square pos' p) dp))"
proof -
  have "p \<in> set colors" by (cases p) (simp_all add: colors_def)
  with assms(1) have "if requires_refresh fs dp p then True
       else king_square pos' p = king_square pos p
       \<and> (case append_changed_indices fs p (king_square pos' p) dp of
            (removed, added) \<Rightarrow>
              sizes_ok FORWARD removed added
              \<and> mset (position_features fs p pos') + mset removed
                  = mset (position_features fs p pos) + mset added)"
    unfolding delta_ok_def list_all_iff by (rule bspec)
  from if_elseD [OF this assms(2)] have
    "king_square pos' p = king_square pos p
       \<and> (case append_changed_indices fs p (king_square pos' p) dp of
            (removed, added) \<Rightarrow>
              sizes_ok FORWARD removed added
              \<and> mset (position_features fs p pos') + mset removed
                  = mset (position_features fs p pos) + mset added)"
    .
  then show "king_square pos' p = king_square pos p"
    and "sizes_ok FORWARD (fst (append_changed_indices fs p (king_square pos' p) dp))
            (snd (append_changed_indices fs p (king_square pos' p) dp))"
    and "mset (position_features fs p pos')
           + mset (fst (append_changed_indices fs p (king_square pos' p) dp))
         = mset (position_features fs p pos)
           + mset (snd (append_changed_indices fs p (king_square pos' p) dp))"
    by (auto simp: split_beta)
qed

lemma acc_correct_nth:
  assumes "acc_correct fs ft p ap pos st"
  shows "k < Dimensions ft \<Longrightarrow> accumulation (acc_of ap st) p ! k
            = column_sum (weights ft) (Dimensions ft) (position_features fs p pos) k"
    and "k < PSQTBuckets \<Longrightarrow> psqtAccumulation (acc_of ap st) p ! k
            = column_sum (psqtWeights ft) PSQTBuckets (position_features fs p pos) k"
  using assms by (simp_all add: acc_correct_def full_dense_def full_psqt_def)

lemma column_sum_forward:
  fixes w :: "nat \<Rightarrow> 'a::len word"
  assumes "mset xs' + mset removed = mset xs + mset added"
  shows "column_sum w st xs k + column_sum w st added k - column_sum w st removed k
           = column_sum w st xs' k"
  using column_sum_balance [OF assms, of w st k] by (simp add: algebra_simps)

lemma column_sum_backward:
  fixes w :: "nat \<Rightarrow> 'a::len word"
  assumes "mset xs' + mset removed = mset xs + mset added"
  shows "column_sum w st xs' k + column_sum w st removed k - column_sum w st added k
           = column_sum w st xs k"
  using column_sum_balance [OF assms, of w st k] by (simp add: algebra_simps)

lemma forward_correct:
  assumes "acc_correct fs ft p ap pos src"
    and "mset (position_features fs p pos') + mset removed
           = mset (position_features fs p pos) + mset added"
  shows "acc_correct fs ft p ap pos' (incremental_result p ap ft removed added tgt src)"
  by (simp add: acc_correct_def incremental_result_acc full_dense_def full_psqt_def
        acc_correct_nth [OF assms(1)] column_sum_forward [OF assms(2)] cong: map_cong)

lemma backward_correct:
  assumes "acc_correct fs ft p ap pos' src"
    and "mset (position_features fs p pos') + mset removed
           = mset (position_features fs p pos) + mset added"
  shows "acc_correct fs ft p ap pos (incremental_result p ap ft added removed tgt src)"
  by (simp add: acc_correct_def incremental_result_acc full_dense_def full_psqt_def
        acc_correct_nth [OF assms(1)] column_sum_backward [OF assms(2)] cong: map_cong)

lemma path_inv_update:
  assumes pi: "path_inv fs ft ap p path accs"
    and i: "i < length path"
    and dp: "dirtyPiece st = dirtyPiece (accs ! i)"
    and ok: "acc_correct fs ft p ap (path ! i) st"
  shows "path_inv fs ft ap p path (accs[i := st])"
  using assms unfolding path_inv_def
  by (auto simp: nth_list_update)

lemma sizes_ok_swap: "sizes_ok FORWARD removed added \<Longrightarrow> sizes_ok BACKWARD added removed"
  by (simp add: sizes_ok_def)

lemma propagate_forward_correct:
  assumes "path_inv fs ft ap p path accs"
    and "length accs < 2 ^ 64"
    and "0 < n" and "n \<le> length path"
    and "computed (acc_of ap (accs ! (n - 1))) p"
    and "\<forall>i. n \<le> i \<and> i < length path \<longrightarrow> \<not> computed (acc_of ap (accs ! i)) p"
    and "\<forall>i. n \<le> i \<and> i < length path \<longrightarrow> \<not> requires_refresh fs (dirtyPiece (accs ! i)) p"
    and "\<forall>i. n \<le> i \<and> i < length path \<longrightarrow> king_square (path ! i) p = ksq"
  shows "\<exists>accs'. propagate fs p FORWARD ap ft ksq (map (\<lambda>i. (i, i - 1)) [n..<length path]) accs
                    = Inr accs'
       \<and> frame ap p accs accs' \<and> path_inv fs ft ap p path accs'
       \<and> (\<forall>i. n \<le> i \<and> i < length path \<longrightarrow> computed (acc_of ap (accs' ! i)) p)"
  using assms
proof (induction "length path - n" arbitrary: n accs)
  case 0
  then have "n = length path" by simp
  with "0.prems"(1) show ?case by (auto simp: frame_refl)
next
  case (Suc d)
  let ?c = "length path"
  from Suc.hyps(2) have nc: "n < ?c" by simp
  from Suc.prems(1) have len: "?c \<le> length accs" by (simp add: path_inv_def)
  have un: "unat (of_nat n :: size_t) = n"
    using nc len Suc.prems(2) by (intro unat_of_nat_size_t) simp
  have un1: "unat (of_nat (n - Suc 0) :: size_t) = n - Suc 0"
    using nc len Suc.prems(2) by (intro unat_of_nat_size_t) simp
  let ?tgt = "accs ! n" and ?src = "accs ! (n - 1)"
  let ?dp = "dirtyPiece ?tgt"
  have dok: "delta_ok fs (path ! (n - 1)) ?dp (path ! n)"
    using Suc.prems(1,3) nc by (simp add: path_inv_def)
  have nrr: "\<not> requires_refresh fs ?dp p" using Suc.prems(7) nc by simp
  have ksq: "king_square (path ! n) p = ksq" using Suc.prems(8) nc by simp
  obtain removed added where
    aci: "append_changed_indices fs p ksq ?dp = (removed, added)"
    by (cases "append_changed_indices fs p ksq ?dp")
  from delta_okD [OF dok nrr] aci ksq
  have so: "sizes_ok FORWARD removed added"
    and ms: "mset (position_features fs p (path ! n)) + mset removed
               = mset (position_features fs p (path ! (n - 1))) + mset added"
    by simp_all
  have srcok: "acc_correct fs ft p ap (path ! (n - 1)) ?src"
    using Suc.prems(1,5) nc by (simp add: path_inv_def)
  let ?t' = "incremental_result p ap ft removed added ?tgt ?src"
  let ?accs1 = "accs[n := ?t']"
  have u: "update_at fs p FORWARD ap ft ksq (of_nat n) (of_nat (n - 1)) accs = Inr ?accs1"
    using update_at_ok [of "of_nat n" accs "of_nat (n - 1)" ap p fs FORWARD ksq removed added ft]
      nc len Suc.prems(5,6) aci so
    by (simp add: un un1 changed_indices_def)
  have f1: "frame ap p accs ?accs1"
    using nc len by (intro frame_update same_but_incremental_result) simp
  have pi1: "path_inv fs ft ap p path ?accs1"
    using Suc.prems(1) nc
    by (intro path_inv_update forward_correct [OF srcok ms])
       (simp_all add: incremental_result_dirtyPiece)
  have cn: "computed (acc_of ap (?accs1 ! n)) p"
    using nc len by (simp add: incremental_result_acc)
  have "\<exists>accs'. propagate fs p FORWARD ap ft ksq (map (\<lambda>i. (i, i - 1)) [Suc n..<?c]) ?accs1
                    = Inr accs'
       \<and> frame ap p ?accs1 accs' \<and> path_inv fs ft ap p path accs'
       \<and> (\<forall>i. Suc n \<le> i \<and> i < ?c \<longrightarrow> computed (acc_of ap (accs' ! i)) p)"
  proof (rule Suc.hyps(1))
    show "d = ?c - Suc n" using Suc.hyps(2) by simp
    show "path_inv fs ft ap p path ?accs1" by (rule pi1)
    show "length ?accs1 < 2 ^ 64" using Suc.prems(2) by simp
    show "0 < Suc n" by simp
    show "Suc n \<le> ?c" using nc by simp
    show "computed (acc_of ap (?accs1 ! (Suc n - 1))) p" using cn by simp
    show "\<forall>i. Suc n \<le> i \<and> i < ?c \<longrightarrow> \<not> computed (acc_of ap (?accs1 ! i)) p"
      using Suc.prems(6) by simp
    show "\<forall>i. Suc n \<le> i \<and> i < ?c \<longrightarrow> \<not> requires_refresh fs (dirtyPiece (?accs1 ! i)) p"
      using Suc.prems(7) by simp
    show "\<forall>i. Suc n \<le> i \<and> i < ?c \<longrightarrow> king_square (path ! i) p = ksq"
      using Suc.prems(8) by simp
  qed
  then obtain accs' where
    r: "propagate fs p FORWARD ap ft ksq (map (\<lambda>i. (i, i - 1)) [Suc n..<?c]) ?accs1 = Inr accs'"
    and f2: "frame ap p ?accs1 accs'" and pi2: "path_inv fs ft ap p path accs'"
    and c2: "\<forall>i. Suc n \<le> i \<and> i < ?c \<longrightarrow> computed (acc_of ap (accs' ! i)) p"
    by blast
  have upt: "[n..<?c] = n # [Suc n..<?c]" using nc by (simp add: upt_conv_Cons)
  have "propagate fs p FORWARD ap ft ksq (map (\<lambda>i. (i, i - 1)) [n..<?c]) accs = Inr accs'"
    unfolding upt using u r by simp
  moreover have "computed (acc_of ap (accs' ! n)) p"
    using frame_flags [OF f2 _ cn] nc len by simp
  then have "\<forall>i. n \<le> i \<and> i < ?c \<longrightarrow> computed (acc_of ap (accs' ! i)) p"
    using c2 by (metis Suc_leI le_neq_implies_less)
  ultimately show ?case
    using frame_trans [OF f1 f2] pi2 by blast
qed


lemma propagate_backward_correct:
  assumes "path_inv fs ft ap p path accs"
    and "length accs < 2 ^ 64"
    and "k \<le> n" and "n < length path"
    and "computed (acc_of ap (accs ! n)) p"
    and "\<forall>i. k \<le> i \<and> i < n \<longrightarrow> \<not> computed (acc_of ap (accs ! i)) p"
    and "\<forall>i. k < i \<and> i \<le> n \<longrightarrow> \<not> requires_refresh fs (dirtyPiece (accs ! i)) p"
    and "\<forall>i. k < i \<and> i \<le> n \<longrightarrow> king_square (path ! i) p = ksq"
  shows "\<exists>accs'. propagate fs p BACKWARD ap ft ksq (map (\<lambda>i. (i, Suc i)) (rev [k..<n])) accs
                    = Inr accs'
       \<and> frame ap p accs accs' \<and> path_inv fs ft ap p path accs'
       \<and> (\<forall>i. k \<le> i \<and> i < n \<longrightarrow> computed (acc_of ap (accs' ! i)) p)"
  using assms
proof (induction n arbitrary: accs)
  case 0
  then show ?case by (auto simp: frame_refl)
next
  case (Suc m)
  show ?case
  proof (cases "k = Suc m")
    case True
    with Suc.prems(1) show ?thesis by (auto simp: frame_refl)
  next
    case False
    with Suc.prems(3) have km: "k \<le> m" by simp
    let ?n = "Suc m"
    from Suc.prems(1) have len: "length path \<le> length accs" by (simp add: path_inv_def)
    have um: "unat (of_nat m :: size_t) = m"
      using Suc.prems(2,4) len by (intro unat_of_nat_size_t) simp
    have un: "unat (of_nat (Suc m) :: size_t) = Suc m"
      using Suc.prems(2,4) len by (intro unat_of_nat_size_t) simp
    let ?tgt = "accs ! m" and ?src = "accs ! ?n"
    let ?dp = "dirtyPiece ?src"
    have dok: "delta_ok fs (path ! m) ?dp (path ! ?n)"
      using Suc.prems(1,4) by (auto simp: path_inv_def)
    have nrr: "\<not> requires_refresh fs ?dp p" using Suc.prems(7) km by simp
    have ksq: "king_square (path ! ?n) p = ksq" using Suc.prems(8) km by simp
    obtain removed added where
      aci: "append_changed_indices fs p ksq ?dp = (removed, added)"
      by (cases "append_changed_indices fs p ksq ?dp")
    from delta_okD [OF dok nrr] aci ksq
    have so: "sizes_ok FORWARD removed added"
      and ms: "mset (position_features fs p (path ! ?n)) + mset removed
                 = mset (position_features fs p (path ! m)) + mset added"
      by simp_all
    have srcok: "acc_correct fs ft p ap (path ! ?n) ?src"
      using Suc.prems(1,4,5) by (simp add: path_inv_def)
    let ?t' = "incremental_result p ap ft added removed ?tgt ?src"
    let ?accs1 = "accs[m := ?t']"
    have mlen: "m < length accs" using Suc.prems(4) len by simp
    have nct: "\<not> computed (acc_of ap ?tgt) p" using Suc.prems(6) km by simp
    have u: "update_at fs p BACKWARD ap ft ksq (of_nat m) (of_nat (Suc m)) accs = Inr ?accs1"
      using update_at_ok [of "of_nat m" accs "of_nat (Suc m)" ap p fs BACKWARD ksq added removed ft]
        Suc.prems(4,5) len mlen nct aci sizes_ok_swap [OF so]
      by (simp add: um un [simplified] changed_indices_def)
    have f1: "frame ap p accs ?accs1"
      using mlen by (intro frame_update same_but_incremental_result)
    have pi1: "path_inv fs ft ap p path ?accs1"
      using Suc.prems(1,4)
      by (intro path_inv_update backward_correct [OF srcok ms])
         (simp_all add: incremental_result_dirtyPiece)
    have cm: "computed (acc_of ap (?accs1 ! m)) p"
      using mlen by (simp add: incremental_result_acc)
    have "\<exists>accs'. propagate fs p BACKWARD ap ft ksq (map (\<lambda>i. (i, Suc i)) (rev [k..<m])) ?accs1
                      = Inr accs'
         \<and> frame ap p ?accs1 accs' \<and> path_inv fs ft ap p path accs'
         \<and> (\<forall>i. k \<le> i \<and> i < m \<longrightarrow> computed (acc_of ap (accs' ! i)) p)"
    proof (rule Suc.IH)
      show "path_inv fs ft ap p path ?accs1" by (rule pi1)
      show "length ?accs1 < 2 ^ 64" using Suc.prems(2) by simp
      show "k \<le> m" by (rule km)
      show "m < length path" using Suc.prems(4) by simp
      show "computed (acc_of ap (?accs1 ! m)) p" by (rule cm)
      show "\<forall>i. k \<le> i \<and> i < m \<longrightarrow> \<not> computed (acc_of ap (?accs1 ! i)) p"
        using Suc.prems(6) by simp
      show "\<forall>i. k < i \<and> i \<le> m \<longrightarrow> \<not> requires_refresh fs (dirtyPiece (?accs1 ! i)) p"
        using Suc.prems(7) mlen by (auto simp: nth_list_update incremental_result_dirtyPiece)
      show "\<forall>i. k < i \<and> i \<le> m \<longrightarrow> king_square (path ! i) p = ksq"
        using Suc.prems(8) by simp
    qed
    then obtain accs' where
      r: "propagate fs p BACKWARD ap ft ksq (map (\<lambda>i. (i, Suc i)) (rev [k..<m])) ?accs1 = Inr accs'"
      and f2: "frame ap p ?accs1 accs'" and pi2: "path_inv fs ft ap p path accs'"
      and c2: "\<forall>i. k \<le> i \<and> i < m \<longrightarrow> computed (acc_of ap (accs' ! i)) p"
      by blast
    have upt: "rev [k..<Suc m] = m # rev [k..<m]" using km by simp
    have "propagate fs p BACKWARD ap ft ksq (map (\<lambda>i. (i, Suc i)) (rev [k..<Suc m])) accs = Inr accs'"
      unfolding upt using u r by simp
    moreover have "computed (acc_of ap (accs' ! m)) p"
      using frame_flags [OF f2 _ cm] mlen by simp
    then have "\<forall>i. k \<le> i \<and> i < Suc m \<longrightarrow> computed (acc_of ap (accs' ! i)) p"
      using c2 by (metis less_Suc_eq)
    ultimately show ?thesis
      using frame_trans [OF f1 f2] pi2 by blast
  qed
qed

lemma chain_const:
  fixes f :: "nat \<Rightarrow> 'a"
  assumes "\<forall>i. a < i \<and> i \<le> b \<longrightarrow> f i = f (i - 1)"
  shows "a \<le> i \<Longrightarrow> i \<le> b \<Longrightarrow> f i = f b"
proof (induction "b - i" arbitrary: i)
  case 0
  then show ?case by simp
next
  case (Suc d)
  then have "f (Suc i) = f b" by simp
  moreover have "f (Suc i) = f i" using assms Suc.prems Suc.hyps(2) by auto
  ultimately show ?case by simp
qed

lemma same_but_other:
  assumes "same_but ap p st st'" and "ap' \<noteq> ap \<or> p' \<noteq> p"
  shows "computed (acc_of ap' st') p' = computed (acc_of ap' st) p'"
    and "accumulation (acc_of ap' st') p' = accumulation (acc_of ap' st) p'"
    and "psqtAccumulation (acc_of ap' st') p' = psqtAccumulation (acc_of ap' st) p'"
  using assms by (cases "ap' = ap"; auto simp: same_but_def)+

lemma same_but_dirtyPiece: "same_but ap p st st' \<Longrightarrow> dirtyPiece st' = dirtyPiece st"
  by (simp add: same_but_def)

lemma acc_correct_other:
  assumes "same_but ap p st st'" and "ap' \<noteq> ap \<or> p' \<noteq> p"
  shows "acc_correct fs ft p' ap' pos st' = acc_correct fs ft p' ap' pos st"
  using same_but_other [OF assms] by (simp add: acc_correct_def)

lemma stack_inv_path_inv:
  "stack_inv fs nets path s \<Longrightarrow> path_inv fs (net_ft nets ap) ap p path (m_accumulators s)"
  by (simp add: stack_inv_def path_inv_def root_inv_def)

lemma stack_inv_frame:
  assumes si: "stack_inv fs nets path s"
    and fr: "frame ap p (m_accumulators s) accs'"
    and pi: "path_inv fs (net_ft nets ap) ap p path accs'"
  shows "stack_inv fs nets path (s\<lparr>m_accumulators := accs'\<rparr>)"
proof -
  let ?accs = "m_accumulators s"
  from fr have len: "length accs' = length ?accs" by (simp add: frame_def)
  from si have ri: "root_inv s" and lp: "length path = unat (m_current_idx s)"
    and cl: "unat (m_current_idx s) \<le> length ?accs"
    by (simp_all add: stack_inv_def root_inv_def)
  have sb: "\<And>i. i < length path \<Longrightarrow> same_but ap p (?accs ! i) (accs' ! i)"
    using fr lp cl by (simp add: frame_def)
  from ri have c1: "1 \<le> m_current_idx s" by (simp add: root_inv_def)
  then have "0 < unat (m_current_idx s)" by (simp add: word_le_nat_alt)
  with cl have l0: "0 < length ?accs" by linarith
  have "root_inv (s\<lparr>m_accumulators := accs'\<rparr>)"
    using ri len frame_flags [OF fr l0] by (simp add: root_inv_def)
  moreover have "\<forall>i<length path. \<forall>ap' p'. computed (acc_of ap' (accs' ! i)) p' \<longrightarrow>
           acc_correct fs (net_ft nets ap') p' ap' (path ! i) (accs' ! i)"
  proof (intro allI impI)
    fix i ap' p'
    assume i: "i < length path" and c: "computed (acc_of ap' (accs' ! i)) p'"
    show "acc_correct fs (net_ft nets ap') p' ap' (path ! i) (accs' ! i)"
    proof (cases "ap' = ap \<and> p' = p")
      case True
      with pi i c show ?thesis by (simp add: path_inv_def)
    next
      case False
      then have o: "ap' \<noteq> ap \<or> p' \<noteq> p" by simp
      from c same_but_other(1) [OF sb [OF i] o]
      have "computed (acc_of ap' (?accs ! i)) p'" by simp
      with si i have "acc_correct fs (net_ft nets ap') p' ap' (path ! i) (?accs ! i)"
        by (simp add: stack_inv_def)
      then show ?thesis by (simp add: acc_correct_other [OF sb [OF i] o])
    qed
  qed
  moreover have "\<forall>i<length path. 0 < i \<longrightarrow>
           delta_ok fs (path ! (i - 1)) (dirtyPiece (accs' ! i)) (path ! i)"
  proof (intro allI impI)
    fix i
    assume i: "i < length path" and i0: "0 < i"
    with si have "delta_ok fs (path ! (i - 1)) (dirtyPiece (?accs ! i)) (path ! i)"
      by (simp add: stack_inv_def)
    then show "delta_ok fs (path ! (i - 1)) (dirtyPiece (accs' ! i)) (path ! i)"
      by (simp add: same_but_dirtyPiece [OF sb [OF i]])
  qed
  ultimately show ?thesis
    using si by (simp add: stack_inv_def)
qed


lemma position_okD:
  "position_ok pos \<Longrightarrow> pieces_c_pt pos c pt = pieces_c pos c AND pieces_pt pos pt"
  by (cases c; cases pt) (simp_all add: position_ok_def colors_def piece_types_def)

lemma refreshed_cache_entry_inv:
  assumes "position_ok pos"
  shows "cache_entry_inv fs ft p (king_square pos p) (refreshed_cache_entry fs p ft pos)"
proof -
  have "entry_bbs (refreshed_cache_entry fs p ft pos) = pieces_c_pt pos"
    by (intro ext) (simp add: entry_bbs_def refreshed_cache_entry_def position_okD [OF assms])
  then show ?thesis
    by (simp add: cache_entry_inv_def) (simp add: refreshed_cache_entry_def)
qed

lemma refresh_cache_inv:
  assumes "cache_inv fs ft cache" and "position_ok pos"
  shows "\<exists>cache'. update_accumulator_refresh_cache V fs p ap ft pos st cache
                     = (refreshed_state fs p ap ft pos st, cache')
                  \<and> cache_inv fs ft cache'"
proof -
  have e: "cache_entry_inv fs ft p (king_square pos p) (cache (king_square pos p) p)"
    using assms(1) by (simp add: cache_inv_def)
  have "cache_inv fs ft (cache(king_square pos p := (cache (king_square pos p))
                    (p := refreshed_cache_entry fs p ft pos)))"
    using assms(1) refreshed_cache_entry_inv [OF assms(2), of fs ft p]
    by (simp add: cache_inv_def)
  with e show ?thesis by (simp add: refresh_unfold)
qed

lemma refreshed_state_correct:
  "acc_correct fs ft p ap pos (refreshed_state fs p ap ft pos st)"
  by (simp add: acc_correct_def refreshed_state_acc position_features_def)

lemma evaluate_side_correct:
  assumes si: "stack_inv fs nets path s"
    and ci: "cache_inv fs (net_ft nets ap) cache"
    and pos: "pos = last path"
  shows "\<exists>s' cache'. evaluate_side V fs p ap pos (net_ft nets ap) cache s = Some (Inr (s', cache'))
     \<and> stack_inv fs nets path s' \<and> cache_inv fs (net_ft nets ap) cache'
     \<and> computed (acc_of ap (m_accumulators s' ! (length path - 1))) p
     \<and> frame ap p (m_accumulators s) (m_accumulators s')
     \<and> m_current_idx s' = m_current_idx s"
proof -
  let ?ft = "net_ft nets ap"
  let ?accs = "m_accumulators s"
  let ?c = "length path"
  let ?k = "last_usable fs p ap s"
  let ?ksq = "king_square pos p"
  from si have ri: "root_inv s" and lp: "?c = unat (m_current_idx s)"
    by (simp_all add: stack_inv_def)
  from ri have c1: "1 \<le> m_current_idx s" and cl: "unat (m_current_idx s) \<le> length ?accs"
    and sz: "length ?accs < 2 ^ 64" and root: "computed (acc_of ap (?accs ! 0)) p"
    by (simp_all add: root_inv_def)
  from c1 have cpos: "0 < unat (m_current_idx s)" by (simp add: word_le_nat_alt)
  then have cp: "0 < ?c" using lp by simp
  have kc: "?k < ?c" using last_usable_props(1) [OF cpos] lp by simp
  have nu: "\<forall>i. ?k < i \<and> i < ?c \<longrightarrow> \<not> usable fs p ap ?accs i"
    using last_usable_props(2) [OF cpos] lp by simp
  have ncomp: "\<forall>i. ?k < i \<and> i < ?c \<longrightarrow> \<not> computed (acc_of ap (?accs ! i)) p"
    using nu by (auto simp: usable_def)
  have nrr: "\<forall>i. ?k < i \<and> i < ?c \<longrightarrow> \<not> requires_refresh fs (dirtyPiece (?accs ! i)) p"
    using nu by (auto simp: usable_def)
  have pi: "path_inv fs ?ft ap p path ?accs" using si by (rule stack_inv_path_inv)
  have lastp: "pos = path ! (?c - 1)" using pos cp by (simp add: last_conv_nth)
  have kstep: "\<forall>i. ?k < i \<and> i \<le> ?c - 1 \<longrightarrow>
                 king_square (path ! i) p = king_square (path ! (i - 1)) p"
  proof (intro allI impI)
    fix i assume i: "?k < i \<and> i \<le> ?c - 1"
    with cp have ic: "i < ?c" and i0: "0 < i" by linarith+
    from si ic i0 have "delta_ok fs (path ! (i - 1)) (dirtyPiece (?accs ! i)) (path ! i)"
      by (simp add: stack_inv_def)
    from delta_okD(1) [OF this] nrr i ic show "king_square (path ! i) p = king_square (path ! (i - 1)) p"
      by simp
  qed
  have ks: "king_square (path ! i) p = ?ksq" if "?k \<le> i" and "i \<le> ?c - 1" for i
    using chain_const [where f = "\<lambda>i. king_square (path ! i) p" and a = ?k and b = "?c - 1",
        OF kstep that]
    by (simp add: lastp)
  have desc: "evaluate_side V fs p ap pos ?ft cache s
                = Some (described_evaluate_side V fs p ap pos ?ft cache s)"
    using c1 cl sz root by (rule evaluate_side_described)
  show ?thesis
  proof (cases "computed (acc_of ap (?accs ! ?k)) p")
    case True
    have "\<exists>accs'. propagate fs p FORWARD ap ?ft ?ksq (map (\<lambda>i. (i, i - 1)) [Suc ?k..<?c]) ?accs
                    = Inr accs'
       \<and> frame ap p ?accs accs' \<and> path_inv fs ?ft ap p path accs'
       \<and> (\<forall>i. Suc ?k \<le> i \<and> i < ?c \<longrightarrow> computed (acc_of ap (accs' ! i)) p)"
    proof (rule propagate_forward_correct [OF pi sz])
      show "0 < Suc ?k" by simp
      show "Suc ?k \<le> ?c" using kc by simp
      show "computed (acc_of ap (?accs ! (Suc ?k - 1))) p" using True by simp
      show "\<forall>i. Suc ?k \<le> i \<and> i < ?c \<longrightarrow> \<not> computed (acc_of ap (?accs ! i)) p"
        using ncomp by simp
      show "\<forall>i. Suc ?k \<le> i \<and> i < ?c \<longrightarrow> \<not> requires_refresh fs (dirtyPiece (?accs ! i)) p"
        using nrr by simp
      show "\<forall>i. Suc ?k \<le> i \<and> i < ?c \<longrightarrow> king_square (path ! i) p = ?ksq"
      proof (intro allI impI)
        fix i assume "Suc ?k \<le> i \<and> i < ?c"
        then have "?k \<le> i" "i \<le> ?c - 1" by linarith+
        then show "king_square (path ! i) p = ?ksq" by (rule ks)
      qed
    qed
    then obtain accs' where
      r: "propagate fs p FORWARD ap ?ft ?ksq (forward_pairs ?k ?c) ?accs = Inr accs'"
      and fr: "frame ap p ?accs accs'" and pi': "path_inv fs ?ft ap p path accs'"
      and cc: "\<forall>i. Suc ?k \<le> i \<and> i < ?c \<longrightarrow> computed (acc_of ap (accs' ! i)) p"
      by (auto simp: forward_pairs_def)
    have lc: "computed (acc_of ap (accs' ! (?c - 1))) p"
    proof (cases "?k = ?c - 1")
      case k: True
      have "?k < length ?accs" using kc lp cl by simp
      from frame_flags [OF fr this True] k show ?thesis by simp
    next
      case False
      with kc have "Suc ?k \<le> ?c - 1 \<and> ?c - 1 < ?c" by linarith
      with cc show ?thesis by blast
    qed
    have "evaluate_side V fs p ap pos ?ft cache s = Some (Inr (s\<lparr>m_accumulators := accs'\<rparr>, cache))"
      using True r by (simp add: desc described_evaluate_side_def Let_def lp)
    with stack_inv_frame [OF si fr pi'] ci lc fr show ?thesis by simp
  next
    case False
    with root have k0: "0 < ?k" by (cases "?k = 0") simp_all
    let ?l = "refreshed_state fs p ap ?ft pos (?accs ! (?c - 1))"
    let ?accs1 = "?accs[?c - 1 := ?l]"
    have pok: "position_ok pos" using si cp lastp by (simp add: stack_inv_def)
    from refresh_cache_inv [OF ci pok] obtain cache' where
      rf: "update_accumulator_refresh_cache V fs p ap ?ft pos (?accs ! (?c - 1)) cache = (?l, cache')"
      and ci': "cache_inv fs ?ft cache'" by blast
    have c1len: "?c - 1 < length ?accs" using cp lp cl by simp
    have f1: "frame ap p ?accs ?accs1"
      using c1len by (intro frame_update same_but_refreshed_state)
    have pi1: "path_inv fs ?ft ap p path ?accs1"
      using pi cp lastp
      by (intro path_inv_update) (simp_all add: refreshed_state_dirtyPiece refreshed_state_correct)
    have "\<exists>accs'. propagate fs p BACKWARD ap ?ft ?ksq (map (\<lambda>i. (i, Suc i)) (rev [?k..<?c - 1])) ?accs1
                    = Inr accs'
       \<and> frame ap p ?accs1 accs' \<and> path_inv fs ?ft ap p path accs'
       \<and> (\<forall>i. ?k \<le> i \<and> i < ?c - 1 \<longrightarrow> computed (acc_of ap (accs' ! i)) p)"
    proof (rule propagate_backward_correct [OF pi1])
      show "length ?accs1 < 2 ^ 64" using sz by simp
      show "?k \<le> ?c - 1" using kc by simp
      show "?c - 1 < ?c" using cp by simp
      show "computed (acc_of ap (?accs1 ! (?c - 1))) p"
        using c1len by (simp add: refreshed_state_acc)
      show "\<forall>i. ?k \<le> i \<and> i < ?c - 1 \<longrightarrow> \<not> computed (acc_of ap (?accs1 ! i)) p"
        using ncomp False by (auto simp: le_less)
      show "\<forall>i. ?k < i \<and> i \<le> ?c - 1 \<longrightarrow> \<not> requires_refresh fs (dirtyPiece (?accs1 ! i)) p"
        using nrr cp c1len by (auto simp: nth_list_update refreshed_state_dirtyPiece)
      show "\<forall>i. ?k < i \<and> i \<le> ?c - 1 \<longrightarrow> king_square (path ! i) p = ?ksq"
      proof (intro allI impI)
        fix i assume "?k < i \<and> i \<le> ?c - 1"
        then have "?k \<le> i" "i \<le> ?c - 1" by linarith+
        then show "king_square (path ! i) p = ?ksq" by (rule ks)
      qed
    qed
    then obtain accs' where
      r: "propagate fs p BACKWARD ap ?ft ?ksq (backward_pairs ?k ?c) ?accs1 = Inr accs'"
      and fr: "frame ap p ?accs1 accs'" and pi': "path_inv fs ?ft ap p path accs'"
      by (auto simp: backward_pairs_def)
    have "computed (acc_of ap (?accs1 ! (?c - 1))) p"
      using c1len by (simp add: refreshed_state_acc)
    from frame_flags [OF fr _ this] c1len
    have lc: "computed (acc_of ap (accs' ! (?c - 1))) p" by simp
    have "evaluate_side V fs p ap pos ?ft cache s = Some (Inr (s\<lparr>m_accumulators := accs'\<rparr>, cache'))"
      using False r rf by (simp add: desc described_evaluate_side_def Let_def lp [symmetric])
    with stack_inv_frame [OF si frame_trans [OF f1 fr] pi'] ci' lc frame_trans [OF f1 fr]
    show ?thesis by simp
  qed
qed

subsection \<open>The operations of the stack keep its invariant\<close>

lemma caches_inv_of: "caches_inv fs nets caches \<Longrightarrow> cache_inv fs (net_ft nets ap) (cache_of caches ap)"
  by (cases ap) (simp_all add: caches_inv_def)

lemma caches_inv_store:
  "caches_inv fs nets caches \<Longrightarrow> cache_inv fs (net_ft nets ap) c
   \<Longrightarrow> caches_inv fs nets (cache_store ap c caches)"
  by (cases ap) (simp_all add: caches_inv_def)

lemma evaluate_correct:
  assumes si: "stack_inv fs nets path s"
    and ci: "cache_inv fs (net_ft nets ap) cache"
    and pos: "pos = last path"
  shows "\<exists>s' cache'. evaluate V fs ap pos (net_ft nets ap) cache s = Some (Inr (s', cache'))
     \<and> stack_inv fs nets path s' \<and> cache_inv fs (net_ft nets ap) cache'
     \<and> (\<forall>p. computed (acc_of ap (m_accumulators s' ! (length path - 1))) p)
     \<and> m_current_idx s' = m_current_idx s
     \<and> length (m_accumulators s') = length (m_accumulators s)"
proof -
  from evaluate_side_correct [OF si ci pos, of V WHITE] obtain s1 cache1 where
    e1: "evaluate_side V fs WHITE ap pos (net_ft nets ap) cache s = Some (Inr (s1, cache1))"
    and si1: "stack_inv fs nets path s1" and ci1: "cache_inv fs (net_ft nets ap) cache1"
    and w: "computed (acc_of ap (m_accumulators s1 ! (length path - 1))) WHITE"
    and f1: "frame ap WHITE (m_accumulators s) (m_accumulators s1)"
    and i1: "m_current_idx s1 = m_current_idx s"
    by blast
  from evaluate_side_correct [OF si1 ci1 pos, of V BLACK] obtain s2 cache2 where
    e2: "evaluate_side V fs BLACK ap pos (net_ft nets ap) cache1 s1 = Some (Inr (s2, cache2))"
    and si2: "stack_inv fs nets path s2" and ci2: "cache_inv fs (net_ft nets ap) cache2"
    and b: "computed (acc_of ap (m_accumulators s2 ! (length path - 1))) BLACK"
    and f2: "frame ap BLACK (m_accumulators s1) (m_accumulators s2)"
    and i2: "m_current_idx s2 = m_current_idx s1"
    by blast
  from si1 have "length path = unat (m_current_idx s1)"
    and "unat (m_current_idx s1) \<le> length (m_accumulators s1)"
    and "1 \<le> m_current_idx s1"
    by (simp_all add: stack_inv_def root_inv_def)
  then have "length path - 1 < length (m_accumulators s1)"
    by (simp add: word_le_nat_alt)
  from frame_flags [OF f2 this w]
  have w2: "computed (acc_of ap (m_accumulators s2 ! (length path - 1))) WHITE" .
  have all: "computed (acc_of ap (m_accumulators s2 ! (length path - 1))) p" for p
    using w2 b by (cases p) simp_all
  have "evaluate V fs ap pos (net_ft nets ap) cache s = Some (Inr (s2, cache2))"
    using e1 e2 by (simp add: evaluate_def)
  moreover have "length (m_accumulators s2) = length (m_accumulators s)"
    using f1 f2 by (simp add: frame_def)
  moreover have "m_current_idx s2 = m_current_idx s" using i1 i2 by simp
  ultimately show ?thesis
    using si2 ci2 all by blast
qed

lemma push_correct:
  assumes si: "stack_inv fs nets path s"
    and cap: "length path + 1 < length (m_accumulators s)"
    and pok: "position_ok pos"
    and dok: "delta_ok fs (last path) dp pos"
  shows "\<exists>s'. push dp s = Inr s' \<and> stack_inv fs nets (path @ [pos]) s'
           \<and> length (m_accumulators s') = length (m_accumulators s)"
proof -
  let ?accs = "m_accumulators s"
  let ?cur = "m_current_idx s"
  let ?c = "length path"
  from si have ri: "root_inv s" and lp: "?c = unat ?cur"
    by (simp_all add: stack_inv_def)
  from ri have c1: "1 \<le> ?cur" and sz: "length ?accs < 2 ^ 64"
    by (simp_all add: root_inv_def)
  from c1 lp have cp: "0 < ?c" by (simp add: word_le_nat_alt)
  have suc: "unat (?cur + 1) = Suc ?c"
  proof -
    have "unat ?cur + unat (1 :: size_t) < 2 ^ LENGTH(64)"
      using cap sz lp by simp
    then have "unat (?cur + 1) = unat ?cur + unat (1 :: size_t)"
      by (simp only: unat_add_lem)
    then show ?thesis by (simp add: lp)
  qed
  have usz: "unat (size_of ?accs) = length ?accs"
    using sz by (simp add: size_of_def unat_of_nat)
  have asrt: "?cur + 1 < size_of ?accs"
    using cap by (simp add: word_less_nat_alt suc usz)
  have clen: "?c < length ?accs" using cap by simp
  let ?s' = "s\<lparr>m_accumulators := ?accs[?c := reset dp (?accs ! ?c)], m_current_idx := ?cur + 1\<rparr>"
  have p: "push dp s = Inr ?s'"
    using asrt clen by (simp add: push_def at_def lp)
  have rflags: "\<not> computed (acc_of ap (reset dp st)) p" for ap p and st :: "'a AccumulatorState"
    by (cases ap) (simp_all add: reset_def)
  have "root_inv ?s'"
    using ri cp suc cap by (simp add: root_inv_def word_le_nat_alt lp [symmetric])
  moreover have "length (path @ [pos]) = unat (m_current_idx ?s')"
    by (simp add: suc)
  moreover have "\<forall>i<length (path @ [pos]). position_ok ((path @ [pos]) ! i)"
    using si pok by (auto simp: stack_inv_def nth_append less_Suc_eq)
  moreover have "\<forall>i<length (path @ [pos]). \<forall>ap p.
       computed (acc_of ap (m_accumulators ?s' ! i)) p \<longrightarrow>
       acc_correct fs (net_ft nets ap) p ap ((path @ [pos]) ! i) (m_accumulators ?s' ! i)"
  proof (intro allI impI)
    fix i ap p
    assume i: "i < length (path @ [pos])"
      and c: "computed (acc_of ap (m_accumulators ?s' ! i)) p"
    show "acc_correct fs (net_ft nets ap) p ap ((path @ [pos]) ! i) (m_accumulators ?s' ! i)"
    proof (cases "i = ?c")
      case True
      with c clen rflags show ?thesis by simp
    next
      case False
      with i have il: "i < ?c" by simp
      with c False have "computed (acc_of ap (?accs ! i)) p" by simp
      with si il have "acc_correct fs (net_ft nets ap) p ap (path ! i) (?accs ! i)"
        by (simp add: stack_inv_def)
      with il False show ?thesis by (simp add: nth_append)
    qed
  qed
  moreover have "\<forall>i<length (path @ [pos]). 0 < i \<longrightarrow>
       delta_ok fs ((path @ [pos]) ! (i - 1)) (dirtyPiece (m_accumulators ?s' ! i))
         ((path @ [pos]) ! i)"
  proof (intro allI impI)
    fix i
    assume i: "i < length (path @ [pos])" and i0: "0 < i"
    show "delta_ok fs ((path @ [pos]) ! (i - 1)) (dirtyPiece (m_accumulators ?s' ! i))
            ((path @ [pos]) ! i)"
    proof (cases "i = ?c")
      case True
      have "dirtyPiece (reset dp (?accs ! ?c)) = dp" by (simp add: reset_def)
      moreover have "(path @ [pos]) ! (?c - 1) = last path"
        using cp by (simp add: nth_append last_conv_nth)
      ultimately show ?thesis using True clen dok by simp
    next
      case False
      with i have il: "i < ?c" by simp
      with si i0 have "delta_ok fs (path ! (i - 1)) (dirtyPiece (?accs ! i)) (path ! i)"
        by (simp add: stack_inv_def)
      with il False show ?thesis by (simp add: nth_append less_imp_diff_less)
    qed
  qed
  ultimately have "stack_inv fs nets (path @ [pos]) ?s'"
    unfolding stack_inv_def by blast
  with p show ?thesis by simp
qed

lemma pop_correct:
  assumes si: "stack_inv fs nets path s" and len: "1 < length path"
  shows "\<exists>s'. pop s = Inr s' \<and> stack_inv fs nets (butlast path) s'
           \<and> length (m_accumulators s') = length (m_accumulators s)"
proof -
  let ?cur = "m_current_idx s"
  from si have ri: "root_inv s" and lp: "length path = unat ?cur"
    by (simp_all add: stack_inv_def)
  from len lp have gt: "1 < ?cur" by (simp add: word_less_nat_alt)
  then have c1: "1 \<le> ?cur" by simp
  have pred: "unat (?cur - 1) = unat ?cur - 1" using c1 by (rule unat_pred)
  let ?s' = "s\<lparr>m_current_idx := ?cur - 1\<rparr>"
  have p: "pop s = Inr ?s'" using gt by (simp add: pop_def)
  have "Suc 0 \<le> unat ?cur - Suc 0" "unat ?cur - Suc 0 \<le> length (m_accumulators s)"
    using ri len lp by (auto simp: root_inv_def)
  then have "root_inv ?s'"
    using ri pred by (simp add: root_inv_def word_le_nat_alt)
  moreover have "length (butlast path) = unat (m_current_idx ?s')"
    using lp pred by simp
  moreover have "\<forall>i<length (butlast path). position_ok (butlast path ! i)"
    using si by (simp add: stack_inv_def nth_butlast)
  moreover have "\<forall>i<length (butlast path). \<forall>ap p.
       computed (acc_of ap (m_accumulators ?s' ! i)) p \<longrightarrow>
       acc_correct fs (net_ft nets ap) p ap (butlast path ! i) (m_accumulators ?s' ! i)"
    using si by (simp add: stack_inv_def nth_butlast)
  moreover have "\<forall>i<length (butlast path). 0 < i \<longrightarrow>
       delta_ok fs (butlast path ! (i - 1)) (dirtyPiece (m_accumulators ?s' ! i))
         (butlast path ! i)"
    using si by (simp add: stack_inv_def nth_butlast)
  ultimately have "stack_inv fs nets (butlast path) ?s'"
    unfolding stack_inv_def by blast
  with p show ?thesis by simp
qed

lemma refreshed_state_flags:
  "computed (acc_of ap' st) p' \<Longrightarrow> computed (acc_of ap' (refreshed_state fs p ap ft pos st)) p'"
  using same_but_flags [OF same_but_refreshed_state] .

lemma refreshed_state_computed:
  "computed (acc_of ap (refreshed_state fs p ap ft pos st)) p"
  by (simp add: refreshed_state_acc)

lemma refreshed_state_keeps:
  assumes "acc_correct fs ft' p' ap' pos' st" and "ap' \<noteq> ap \<or> p' \<noteq> p"
  shows "acc_correct fs ft' p' ap' pos' (refreshed_state fs p ap ft pos st)"
  using assms(1) by (simp only: acc_correct_other [OF same_but_refreshed_state assms(2)])

lemma reset_correct:
  assumes l0: "0 < length (m_accumulators s)" and sz: "length (m_accumulators s) < 2 ^ 64"
    and ci: "caches_inv fs nets caches" and pok: "position_ok rootPos"
  shows "\<exists>s0 c0. stack_reset V fs rootPos nets caches s = Inr (s0, c0)
     \<and> stack_inv fs nets [rootPos] s0 \<and> caches_inv fs nets c0
     \<and> length (m_accumulators s0) = length (m_accumulators s)"
proof -
  let ?accs = "m_accumulators s"
  let ?B = accumulatorBigPtr and ?S = accumulatorSmallPtr
  let ?st0 = "?accs ! 0"
  let ?st1 = "refreshed_state fs WHITE ?B (net_big nets) rootPos ?st0"
  let ?st2 = "refreshed_state fs BLACK ?B (net_big nets) rootPos ?st1"
  let ?st3 = "refreshed_state fs WHITE ?S (net_small nets) rootPos ?st2"
  let ?st4 = "refreshed_state fs BLACK ?S (net_small nets) rootPos ?st3"
  from ci have cb: "cache_inv fs (net_big nets) (cache_big caches)"
    and cs: "cache_inv fs (net_small nets) (cache_small caches)"
    by (simp_all add: caches_inv_def)
  from refresh_cache_inv [OF cb pok] obtain big1 where
    r1: "update_accumulator_refresh_cache V fs WHITE ?B (net_big nets) rootPos ?st0
           (cache_big caches) = (?st1, big1)"
    and cb1: "cache_inv fs (net_big nets) big1" by blast
  from refresh_cache_inv [OF cb1 pok] obtain big2 where
    r2: "update_accumulator_refresh_cache V fs BLACK ?B (net_big nets) rootPos ?st1 big1
           = (?st2, big2)"
    and cb2: "cache_inv fs (net_big nets) big2" by blast
  from refresh_cache_inv [OF cs pok] obtain small1 where
    r3: "update_accumulator_refresh_cache V fs WHITE ?S (net_small nets) rootPos ?st2
           (cache_small caches) = (?st3, small1)"
    and cs1: "cache_inv fs (net_small nets) small1" by blast
  from refresh_cache_inv [OF cs1 pok] obtain small2 where
    r4: "update_accumulator_refresh_cache V fs BLACK ?S (net_small nets) rootPos ?st3 small1
           = (?st4, small2)"
    and cs2: "cache_inv fs (net_small nets) small2" by blast
  let ?s0 = "s\<lparr>m_accumulators := ?accs[0 := ?st4], m_current_idx := 1\<rparr>"
  let ?c0 = "caches\<lparr>cache_big := big2, cache_small := small2\<rparr>"
  have at0: "at ?accs 0 = Inr ?st0" using l0 by (simp add: at_def)
  have res: "stack_reset V fs rootPos nets caches s = Inr (?s0, ?c0)"
    by (simp add: stack_reset_def at0 r1 r2 r3 r4)
  have f1: "computed (acc_of ?B ?st4) WHITE"
    by (rule refreshed_state_flags [OF refreshed_state_flags [OF refreshed_state_flags
          [OF refreshed_state_computed]]])
  have f2: "computed (acc_of ?B ?st4) BLACK"
    by (rule refreshed_state_flags [OF refreshed_state_flags [OF refreshed_state_computed]])
  have f3: "computed (acc_of ?S ?st4) WHITE"
    by (rule refreshed_state_flags [OF refreshed_state_computed])
  have f4: "computed (acc_of ?S ?st4) BLACK"
    by (rule refreshed_state_computed)
  have flags: "computed (acc_of ap ?st4) p" for ap p
    using f1 f2 f3 f4 by (cases ap; cases p) (simp_all only:)
  have k1: "acc_correct fs (net_ft nets ?B) WHITE ?B rootPos ?st4"
    by (rule refreshed_state_keeps, rule refreshed_state_keeps, rule refreshed_state_keeps)
       (simp_all add: refreshed_state_correct)
  have k2: "acc_correct fs (net_ft nets ?B) BLACK ?B rootPos ?st4"
    by (rule refreshed_state_keeps, rule refreshed_state_keeps)
       (simp_all add: refreshed_state_correct)
  have k3: "acc_correct fs (net_ft nets ?S) WHITE ?S rootPos ?st4"
    by (rule refreshed_state_keeps) (simp_all add: refreshed_state_correct)
  have k4: "acc_correct fs (net_ft nets ?S) BLACK ?S rootPos ?st4"
    by (simp add: refreshed_state_correct)
  have corr: "acc_correct fs (net_ft nets ap) p ap rootPos ?st4" for ap p
    using k1 k2 k3 k4 by (cases ap; cases p) (simp_all only:)
  from l0 have l1: "Suc 0 \<le> length ?accs" by linarith
  have "root_inv ?s0"
    using l0 l1 sz flags by (simp add: root_inv_def)
  then have "stack_inv fs nets [rootPos] ?s0"
    using pok l0 corr by (simp add: stack_inv_def)
  moreover have "caches_inv fs nets ?c0"
    using cb2 cs2 by (simp add: caches_inv_def)
  ultimately show ?thesis using res by simp
qed

lemma run_correct:
  assumes "stack_inv fs nets path s" and "caches_inv fs nets caches"
    and "ops_ok fs (length (m_accumulators s)) path ops"
  shows "\<exists>s' caches' path'. run V fs nets ops (s, caches, path) = Some (Inr (s', caches', path'))
     \<and> stack_inv fs nets path' s' \<and> caches_inv fs nets caches'
     \<and> length (m_accumulators s') = length (m_accumulators s)"
  using assms
proof (induction ops arbitrary: s caches path)
  case Nil
  then show ?case by simp
next
  case (Cons x xs)
  show ?case
  proof (cases x)
    case (Push dp pos)
    with Cons.prems(3) have cap: "length path + 1 < length (m_accumulators s)"
      and pok: "position_ok pos" and dok: "delta_ok fs (last path) dp pos"
      and rest: "ops_ok fs (length (m_accumulators s)) (path @ [pos]) xs"
      by simp_all
    from push_correct [OF Cons.prems(1) cap pok dok] obtain s1 where
      p: "push dp s = Inr s1" and si1: "stack_inv fs nets (path @ [pos]) s1"
      and l1: "length (m_accumulators s1) = length (m_accumulators s)" by blast
    from Cons.IH [OF si1 Cons.prems(2)] rest l1 obtain s' caches' path' where
      "run V fs nets xs (s1, caches, path @ [pos]) = Some (Inr (s', caches', path'))"
      "stack_inv fs nets path' s'" "caches_inv fs nets caches'"
      "length (m_accumulators s') = length (m_accumulators s1)"
      by auto
    with p l1 Push show ?thesis by simp
  next
    case Pop
    with Cons.prems(3) have len: "1 < length path"
      and rest: "ops_ok fs (length (m_accumulators s)) (butlast path) xs"
      by simp_all
    from pop_correct [OF Cons.prems(1) len] obtain s1 where
      p: "pop s = Inr s1" and si1: "stack_inv fs nets (butlast path) s1"
      and l1: "length (m_accumulators s1) = length (m_accumulators s)" by blast
    from Cons.IH [OF si1 Cons.prems(2)] rest l1 obtain s' caches' path' where
      "run V fs nets xs (s1, caches, butlast path) = Some (Inr (s', caches', path'))"
      "stack_inv fs nets path' s'" "caches_inv fs nets caches'"
      "length (m_accumulators s') = length (m_accumulators s1)"
      by auto
    with p l1 Pop show ?thesis by simp
  next
    case (Evaluate ap pos)
    with Cons.prems(3) have pos: "pos = last path"
      and rest: "ops_ok fs (length (m_accumulators s)) path xs"
      by simp_all
    from evaluate_correct [OF Cons.prems(1) caches_inv_of [OF Cons.prems(2)] pos, where V = V]
    obtain s1 cache1 where
      e: "evaluate V fs ap pos (net_ft nets ap) (cache_of caches ap) s = Some (Inr (s1, cache1))"
      and si1: "stack_inv fs nets path s1" and c1: "cache_inv fs (net_ft nets ap) cache1"
      and l1: "length (m_accumulators s1) = length (m_accumulators s)" by blast
    have ci1: "caches_inv fs nets (cache_store ap cache1 caches)"
      using Cons.prems(2) c1 by (rule caches_inv_store)
    from Cons.IH [OF si1 ci1] rest l1 obtain s' caches' path' where
      "run V fs nets xs (s1, cache_store ap cache1 caches, path) = Some (Inr (s', caches', path'))"
      "stack_inv fs nets path' s'" "caches_inv fs nets caches'"
      "length (m_accumulators s') = length (m_accumulators s1)"
      by auto
    with e l1 Evaluate show ?thesis by simp
  qed
qed

subsection \<open>The small instance meets the preconditions\<close>

lemma ex_position_ok: "position_ok (ex_position wk bk wp)"
  by (simp add: position_ok_def ex_position_def colors_def piece_types_def)

lemma ex_cache0_inv: "cache_inv ex_fs ex_ft ex_cache0"
  by (simp add: cache_inv_def ex_cache0_entry_inv)

lemma ex_caches_inv: "caches_inv ex_fs ex_nets ex_caches"
  by (simp add: caches_inv_def ex_nets_def ex_caches_def ex_cache0_inv)

lemma ex_delta1:
  "delta_ok ex_fs (ex_position 4 60 12) ((WHITE, PAWN), 12, 28) (ex_position 4 60 28)"
  by (simp add: delta_ok_def colors_def ex_fs_def sizes_ok_def
        position_features_def active_indices_def piece_types_def squares_def make_piece_def
        ex_position_def ex_index_def bit_simps upt_rec [of _ "numeral _"] upt_rec [of _ "Suc _"])

lemma ex_delta2:
  "delta_ok ex_fs (ex_position 4 60 28) ((BLACK, KING), 60, 59) (ex_position 4 59 28)"
  by (simp add: delta_ok_def colors_def ex_fs_def sizes_ok_def
        position_features_def active_indices_def piece_types_def squares_def make_piece_def
        ex_position_def ex_index_def bit_simps upt_rec [of _ "numeral _"] upt_rec [of _ "Suc _"])

lemma ex_delta3:
  "delta_ok ex_fs (ex_position 4 59 28) ((WHITE, PAWN), 28, 36) (ex_position 4 59 36)"
  by (simp add: delta_ok_def colors_def ex_fs_def sizes_ok_def
        position_features_def active_indices_def piece_types_def squares_def make_piece_def
        ex_position_def ex_index_def bit_simps upt_rec [of _ "numeral _"] upt_rec [of _ "Suc _"])

lemma ex_ops_ok:
  "ops_ok ex_fs 5 [ex_position 4 60 12] (ex_ops @ [Evaluate ap (ex_position 4 59 36)])"
  by (simp add: ex_ops_def ex_position_ok ex_delta1 ex_delta2 ex_delta3)

subsection \<open>Sequences of operations\<close>

lemma run_append:
  "run V fs nets (xs @ ys) w =
     (case run V fs nets xs w of
        None \<Rightarrow> None
      | Some (Inl e) \<Rightarrow> Some (Inl e)
      | Some (Inr w') \<Rightarrow> run V fs nets ys w')"
proof (induction xs arbitrary: w)
  case Nil
  then show ?case by simp
next
  case (Cons x xs)
  then show ?case
    by (cases "run_op V fs nets x w") (auto split: sum.splits)
qed

lemma run_prefix_correct:
  assumes "stack_inv fs nets path s" and "caches_inv fs nets caches"
    and "ops_ok fs (length (m_accumulators s)) path (xs @ ys)"
  shows "\<exists>s' caches' path'. run V fs nets xs (s, caches, path) = Some (Inr (s', caches', path'))
     \<and> stack_inv fs nets path' s' \<and> caches_inv fs nets caches'
     \<and> length (m_accumulators s') = length (m_accumulators s)
     \<and> ops_ok fs (length (m_accumulators s)) path' ys"
  using assms
proof (induction xs arbitrary: s caches path)
  case Nil
  then show ?case by simp
next
  case (Cons x xs)
  show ?case
  proof (cases x)
    case (Push dp pos)
    with Cons.prems(3) have cap: "length path + 1 < length (m_accumulators s)"
      and pok: "position_ok pos" and dok: "delta_ok fs (last path) dp pos"
      and rest: "ops_ok fs (length (m_accumulators s)) (path @ [pos]) (xs @ ys)"
      by simp_all
    from push_correct [OF Cons.prems(1) cap pok dok] obtain s1 where
      p: "push dp s = Inr s1" and si1: "stack_inv fs nets (path @ [pos]) s1"
      and l1: "length (m_accumulators s1) = length (m_accumulators s)" by blast
    from Cons.IH [OF si1 Cons.prems(2)] rest l1 obtain s' caches' path' where
      "run V fs nets xs (s1, caches, path @ [pos]) = Some (Inr (s', caches', path'))"
      "stack_inv fs nets path' s'" "caches_inv fs nets caches'"
      "length (m_accumulators s') = length (m_accumulators s1)"
      "ops_ok fs (length (m_accumulators s1)) path' ys"
      by auto
    with p l1 Push show ?thesis by simp
  next
    case Pop
    with Cons.prems(3) have len: "1 < length path"
      and rest: "ops_ok fs (length (m_accumulators s)) (butlast path) (xs @ ys)"
      by simp_all
    from pop_correct [OF Cons.prems(1) len] obtain s1 where
      p: "pop s = Inr s1" and si1: "stack_inv fs nets (butlast path) s1"
      and l1: "length (m_accumulators s1) = length (m_accumulators s)" by blast
    from Cons.IH [OF si1 Cons.prems(2)] rest l1 obtain s' caches' path' where
      "run V fs nets xs (s1, caches, butlast path) = Some (Inr (s', caches', path'))"
      "stack_inv fs nets path' s'" "caches_inv fs nets caches'"
      "length (m_accumulators s') = length (m_accumulators s1)"
      "ops_ok fs (length (m_accumulators s1)) path' ys"
      by auto
    with p l1 Pop show ?thesis by simp
  next
    case (Evaluate ap pos)
    with Cons.prems(3) have pos: "pos = last path"
      and rest: "ops_ok fs (length (m_accumulators s)) path (xs @ ys)"
      by simp_all
    from evaluate_correct [OF Cons.prems(1) caches_inv_of [OF Cons.prems(2)] pos, where V = V]
    obtain s1 cache1 where
      e: "evaluate V fs ap pos (net_ft nets ap) (cache_of caches ap) s = Some (Inr (s1, cache1))"
      and si1: "stack_inv fs nets path s1" and c1: "cache_inv fs (net_ft nets ap) cache1"
      and l1: "length (m_accumulators s1) = length (m_accumulators s)" by blast
    have ci1: "caches_inv fs nets (cache_store ap cache1 caches)"
      using Cons.prems(2) c1 by (rule caches_inv_store)
    from Cons.IH [OF si1 ci1] rest l1 obtain s' caches' path' where
      "run V fs nets xs (s1, cache_store ap cache1 caches, path) = Some (Inr (s', caches', path'))"
      "stack_inv fs nets path' s'" "caches_inv fs nets caches'"
      "length (m_accumulators s') = length (m_accumulators s1)"
      "ops_ok fs (length (m_accumulators s1)) path' ys"
      by auto
    with e l1 Evaluate show ?thesis by simp
  qed
qed

lemma column_sum_Nil: "column_sum w st [] = (\<lambda>k. 0)"
  by (rule ext) (simp add: column_sum_def)

lemma initial_cache_inv: "cache_inv fs ft (initial_cache ft)"
  by (simp add: cache_inv_def cache_entry_inv_def initial_cache_def entry_bbs_def
        active_indices_def squares_def full_dense_def full_psqt_def column_sum_Nil
        map_replicate_const)

lemma from_scratch_eq:
  "from_scratch V fs p ap ft pos st = refreshed_state fs p ap ft pos st"
proof -
  have "cache_entry_inv fs ft p (king_square pos p) (initial_cache ft (king_square pos p) p)"
    using initial_cache_inv [of fs ft] by (simp add: cache_inv_def)
  then show ?thesis
    by (simp add: from_scratch_def refresh_unfold)
qed

lemma from_scratch_vectors:
  "accumulation (acc_of ap (from_scratch V fs p ap ft pos st)) p
     = full_dense ft (position_features fs p pos)"
  "psqtAccumulation (acc_of ap (from_scratch V fs p ap ft pos st)) p
     = full_psqt ft (position_features fs p pos)"
  by (simp_all add: from_scratch_eq refreshed_state_acc position_features_def)

subsection \<open>The claims about the stack\<close>

text \<open>
  C1. Take a stack whose vector is not empty, caches that satisfy the cache invariant, a
  legal root position, and any sequence of pushes and pops, interleaved with evaluations,
  that respects the preconditions of the caller (\<open>ops_ok\<close>: depth within capacity, no
  pop of the root, dirty pieces consistent with the positions, the current position
  passed to \<open>evaluate\<close>). After \<open>reset\<close> and that sequence, a further \<open>evaluate\<close> returns,
  and the latest state \<open>m_accumulators[m_current_idx - 1]\<close> is computed for both
  perspectives of the selected network and holds, for each perspective, exactly the dense
  and PSQT vectors that a from-scratch refresh of the current position produces.
\<close>

theorem evaluate_equals_from_scratch_refresh:
  assumes "0 < length (m_accumulators s)" and "length (m_accumulators s) < 2 ^ 64"
    and "caches_inv fs nets caches" and "position_ok rootPos"
    and "ops_ok fs (length (m_accumulators s)) [rootPos] (ops @ [Evaluate ap pos])"
  shows "\<exists>s0 c0 s1 c1 path l.
       stack_reset V fs rootPos nets caches s = Inr (s0, c0)
     \<and> run V fs nets (ops @ [Evaluate ap pos]) (s0, c0, [rootPos]) = Some (Inr (s1, c1, path))
     \<and> pos = last path
     \<and> latest s1 = Inr l
     \<and> (\<forall>p. computed (acc_of ap l) p
            \<and> accumulation (acc_of ap l) p
                = accumulation (acc_of ap (from_scratch V fs p ap (net_ft nets ap) pos st)) p
            \<and> psqtAccumulation (acc_of ap l) p
                = psqtAccumulation (acc_of ap (from_scratch V fs p ap (net_ft nets ap) pos st)) p)"
proof -
  from reset_correct [OF assms(1-4), of V] obtain s0 c0 where
    r: "stack_reset V fs rootPos nets caches s = Inr (s0, c0)"
    and si0: "stack_inv fs nets [rootPos] s0" and ci0: "caches_inv fs nets c0"
    and l0: "length (m_accumulators s0) = length (m_accumulators s)"
    by blast
  from run_prefix_correct [OF si0 ci0, of ops "[Evaluate ap pos]" V] assms(5) l0
  obtain s' caches' path where
    ru: "run V fs nets ops (s0, c0, [rootPos]) = Some (Inr (s', caches', path))"
    and si': "stack_inv fs nets path s'" and ci': "caches_inv fs nets caches'"
    and ok: "ops_ok fs (length (m_accumulators s0)) path [Evaluate ap pos]"
    by auto
  from ok have pos: "pos = last path" by simp
  from evaluate_correct [OF si' caches_inv_of [OF ci'] pos, where V = V]
  obtain s1 cache1 where
    e: "evaluate V fs ap pos (net_ft nets ap) (cache_of caches' ap) s' = Some (Inr (s1, cache1))"
    and si1: "stack_inv fs nets path s1"
    and comp: "\<forall>p. computed (acc_of ap (m_accumulators s1 ! (length path - 1))) p"
    by blast
  let ?l = "m_accumulators s1 ! (length path - 1)"
  have run: "run V fs nets (ops @ [Evaluate ap pos]) (s0, c0, [rootPos])
               = Some (Inr (s1, cache_store ap cache1 caches', path))"
    by (simp add: run_append ru e)
  from si1 have lp: "length path = unat (m_current_idx s1)"
    and c1: "1 \<le> m_current_idx s1"
    and cl: "unat (m_current_idx s1) \<le> length (m_accumulators s1)"
    by (simp_all add: stack_inv_def root_inv_def)
  from c1 have cp: "0 < unat (m_current_idx s1)" by (simp add: word_le_nat_alt)
  have lat: "latest s1 = Inr ?l"
    using cp cl by (simp add: latest_def at_def unat_pred [OF c1] lp)
  have corr: "acc_correct fs (net_ft nets ap) p ap pos ?l" for p
  proof -
    have "length path - 1 < length path" using cp lp by simp
    moreover have "path \<noteq> []" using cp lp by auto
    then have "path ! (length path - 1) = pos"
      using pos by (simp add: last_conv_nth)
    ultimately show ?thesis using si1 comp by (auto simp: stack_inv_def)
  qed
  have "computed (acc_of ap ?l) p
      \<and> accumulation (acc_of ap ?l) p
          = accumulation (acc_of ap (from_scratch V fs p ap (net_ft nets ap) pos st)) p
      \<and> psqtAccumulation (acc_of ap ?l) p
          = psqtAccumulation (acc_of ap (from_scratch V fs p ap (net_ft nets ap) pos st)) p" for p
    using comp corr [of p] by (simp add: from_scratch_vectors acc_correct_def)
  with r run pos lat show ?thesis by blast
qed

theorem evaluate_equals_from_scratch_refresh_witness:
  "0 < length (m_accumulators ex_stack) \<and> length (m_accumulators ex_stack) < 2 ^ 64
   \<and> caches_inv ex_fs ex_nets ex_caches \<and> position_ok (ex_position 4 60 12)
   \<and> ops_ok ex_fs (length (m_accumulators ex_stack)) [ex_position 4 60 12]
        (ex_ops @ [Evaluate accumulatorBigPtr (ex_position 4 59 36)])
   \<and> (\<exists>s0 c0 s1 c1 path l.
         stack_reset True ex_fs (ex_position 4 60 12) ex_nets ex_caches ex_stack = Inr (s0, c0)
       \<and> run True ex_fs ex_nets (ex_ops @ [Evaluate accumulatorBigPtr (ex_position 4 59 36)])
            (s0, c0, [ex_position 4 60 12]) = Some (Inr (s1, c1, path))
       \<and> ex_position 4 59 36 = last path
       \<and> latest s1 = Inr l
       \<and> (\<forall>p. computed (acc_of accumulatorBigPtr l) p
            \<and> accumulation (acc_of accumulatorBigPtr l) p
                = accumulation (acc_of accumulatorBigPtr (from_scratch True ex_fs p
                    accumulatorBigPtr (net_ft ex_nets accumulatorBigPtr) (ex_position 4 59 36)
                    ex_target)) p
            \<and> psqtAccumulation (acc_of accumulatorBigPtr l) p
                = psqtAccumulation (acc_of accumulatorBigPtr (from_scratch True ex_fs p
                    accumulatorBigPtr (net_ft ex_nets accumulatorBigPtr) (ex_position 4 59 36)
                    ex_target)) p))"
proof -
  have h1: "0 < length (m_accumulators ex_stack)" by (simp add: ex_stack_def)
  have h2: "length (m_accumulators ex_stack) < 2 ^ 64" by (simp add: ex_stack_def)
  have h5: "ops_ok ex_fs (length (m_accumulators ex_stack)) [ex_position 4 60 12]
        (ex_ops @ [Evaluate accumulatorBigPtr (ex_position 4 59 36)])"
  proof -
    have "length (m_accumulators ex_stack) = 5" by (simp add: ex_stack_def)
    then show ?thesis using ex_ops_ok [of accumulatorBigPtr] by (simp only:)
  qed
  from evaluate_equals_from_scratch_refresh [OF h1 h2 ex_caches_inv ex_position_ok h5,
      where V = True and st = ex_target]
    h1 h2 ex_caches_inv [unfolded] ex_position_ok [of 4 60 12] h5
  show ?thesis by blast
qed

subsection \<open>The root of the stack\<close>

text \<open>
  The flags of the root are a matter of the control flow alone: the lemmas below assume
  nothing of the caches, the positions or the dirty pieces, only that the call at hand
  returns without a failed assertion.
\<close>

lemma reset_root:
  assumes r: "stack_reset V fs rootPos nets caches s = Inr (s0, c0)"
    and sz: "length (m_accumulators s) < 2 ^ 64"
  shows "root_inv s0 \<and> m_current_idx s0 = 1
         \<and> length (m_accumulators s0) = length (m_accumulators s)"
proof -
  let ?B = accumulatorBigPtr and ?S = accumulatorSmallPtr
  from r obtain st0 where a: "at (m_accumulators s) 0 = Inr st0"
    by (auto simp: stack_reset_def split: sum.splits)
  then have l0: "0 < length (m_accumulators s)" by (auto simp: at_def split: if_splits)
  define r1 where "r1 = update_accumulator_refresh_cache V fs WHITE ?B (net_big nets) rootPos
                          st0 (cache_big caches)"
  define r2 where "r2 = update_accumulator_refresh_cache V fs BLACK ?B (net_big nets) rootPos
                          (fst r1) (snd r1)"
  define r3 where "r3 = update_accumulator_refresh_cache V fs WHITE ?S (net_small nets) rootPos
                          (fst r2) (cache_small caches)"
  define r4 where "r4 = update_accumulator_refresh_cache V fs BLACK ?S (net_small nets) rootPos
                          (fst r3) (snd r3)"
  from r a have s0: "s0 = s\<lparr>m_accumulators := (m_accumulators s)[0 := fst r4],
                              m_current_idx := 1\<rparr>"
    by (simp add: stack_reset_def r1_def r2_def r3_def r4_def split_beta)
  have b1: "computed (acc_of ?B (fst r1)) WHITE"
    unfolding r1_def using refresh_same_but by blast
  have b2: "same_but ?B BLACK (fst r1) (fst r2)" "computed (acc_of ?B (fst r2)) BLACK"
    unfolding r2_def using refresh_same_but by blast+
  have b3: "same_but ?S WHITE (fst r2) (fst r3)" "computed (acc_of ?S (fst r3)) WHITE"
    unfolding r3_def using refresh_same_but by blast+
  have b4: "same_but ?S BLACK (fst r3) (fst r4)" "computed (acc_of ?S (fst r4)) BLACK"
    unfolding r4_def using refresh_same_but by blast+
  have f1: "computed (acc_of ?B (fst r4)) WHITE"
    by (rule same_but_flags [OF b4(1) same_but_flags [OF b3(1) same_but_flags [OF b2(1) b1]]])
  have f2: "computed (acc_of ?B (fst r4)) BLACK"
    by (rule same_but_flags [OF b4(1) same_but_flags [OF b3(1) b2(2)]])
  have f3: "computed (acc_of ?S (fst r4)) WHITE"
    by (rule same_but_flags [OF b4(1) b3(2)])
  have flags: "computed (acc_of ap (fst r4)) p" for ap p
    using f1 f2 f3 b4(2) by (cases ap; cases p) (simp_all only:)
  from l0 have l1: "Suc 0 \<le> length (m_accumulators s)" by linarith
  show ?thesis
    using l0 l1 sz flags by (simp add: s0 root_inv_def)
qed

lemma push_root:
  assumes ri: "root_inv s" and p: "push dp s = Inr s'"
  shows "root_inv s' \<and> m_accumulators s' ! 0 = m_accumulators s ! 0
         \<and> 1 \<le> unat (m_current_idx s) \<and> unat (m_current_idx s) < length (m_accumulators s)
         \<and> m_accumulators s' = (m_accumulators s)
              [unat (m_current_idx s) := reset dp (m_accumulators s ! unat (m_current_idx s))]
         \<and> m_current_idx s' = m_current_idx s + 1"
proof -
  let ?accs = "m_accumulators s"
  let ?cur = "m_current_idx s"
  from ri have c1: "1 \<le> ?cur" and sz: "length ?accs < 2 ^ 64"
    and root: "\<forall>ap p. computed (acc_of ap (?accs ! 0)) p"
    by (simp_all add: root_inv_def)
  from c1 have cp: "1 \<le> unat ?cur" by (simp add: word_le_nat_alt)
  from p have clen: "unat ?cur < length ?accs"
    and s': "s' = s\<lparr>m_accumulators := ?accs[unat ?cur := reset dp (?accs ! unat ?cur)],
                     m_current_idx := ?cur + 1\<rparr>"
    by (auto simp: push_def at_def split: if_splits)
  have suc: "unat (?cur + 1) = Suc (unat ?cur)"
  proof -
    have "unat ?cur + unat (1 :: size_t) < 2 ^ LENGTH(64)"
      using clen sz by simp
    then have "unat (?cur + 1) = unat ?cur + unat (1 :: size_t)"
      by (simp only: unat_add_lem)
    then show ?thesis by simp
  qed
  have "root_inv s'"
    using root cp clen sz suc by (simp add: s' root_inv_def word_le_nat_alt)
  then show ?thesis using cp clen by (simp add: s')
qed

lemma pop_root:
  assumes ri: "root_inv s" and p: "pop s = Inr s'"
  shows "root_inv s' \<and> m_accumulators s' = m_accumulators s \<and> 1 \<le> m_current_idx s'
         \<and> m_current_idx s' = m_current_idx s - 1"
proof -
  let ?cur = "m_current_idx s"
  from p have gt: "1 < ?cur" and s': "s' = s\<lparr>m_current_idx := ?cur - 1\<rparr>"
    by (auto simp: pop_def split: if_splits)
  then have c1: "1 \<le> ?cur" by simp
  have pred: "unat (?cur - 1) = unat ?cur - 1" using c1 by (rule unat_pred)
  from gt have g: "1 < unat ?cur" by (simp add: word_less_nat_alt)
  have "Suc 0 \<le> unat ?cur - Suc 0" "unat ?cur - Suc 0 \<le> length (m_accumulators s)"
    using ri g by (auto simp: root_inv_def)
  then have "root_inv s'"
    using ri pred by (simp add: s' root_inv_def word_le_nat_alt)
  then show ?thesis by (simp add: s' root_inv_def)
qed

lemma evaluate_side_root:
  assumes ri: "root_inv s"
    and ev: "evaluate_side V fs p ap pos ft cache s = Some (Inr (s', cache'))"
  shows "root_inv s' \<and> frame ap p (m_accumulators s) (m_accumulators s')
         \<and> m_current_idx s' = m_current_idx s"
proof -
  let ?accs = "m_accumulators s"
  let ?c = "unat (m_current_idx s)"
  let ?k = "last_usable fs p ap s"
  let ?ksq = "king_square pos p"
  from ri have c1: "1 \<le> m_current_idx s" and cl: "?c \<le> length ?accs"
    and sz: "length ?accs < 2 ^ 64" and root: "\<forall>ap p. computed (acc_of ap (?accs ! 0)) p"
    by (simp_all add: root_inv_def)
  from c1 have cp: "0 < ?c" by (simp add: word_le_nat_alt)
  from root have rootp: "computed (acc_of ap (?accs ! 0)) p" by simp
  from ev evaluate_side_described [OF c1 cl sz rootp, of V fs pos ft cache]
  have d: "described_evaluate_side V fs p ap pos ft cache s = Inr (s', cache')" by simp
  have "\<exists>accs'. s' = s\<lparr>m_accumulators := accs'\<rparr> \<and> frame ap p ?accs accs'"
  proof (cases "computed (acc_of ap (?accs ! ?k)) p")
    case True
    with d obtain accs' where
      pr: "propagate fs p FORWARD ap ft ?ksq (forward_pairs ?k ?c) ?accs = Inr accs'"
      and s': "s' = s\<lparr>m_accumulators := accs'\<rparr>"
      by (auto simp: described_evaluate_side_def Let_def split: sum.splits)
    from propagate_frame [OF pr] s' show ?thesis by blast
  next
    case False
    define rr where "rr = update_accumulator_refresh_cache V fs p ap ft pos (?accs ! (?c - 1)) cache"
    from False d obtain accs' where
      pr: "propagate fs p BACKWARD ap ft ?ksq (backward_pairs ?k ?c) (?accs[?c - 1 := fst rr])
             = Inr accs'"
      and s': "s' = s\<lparr>m_accumulators := accs'\<rparr>"
      by (auto simp: described_evaluate_side_def Let_def rr_def split_beta split: sum.splits)
    have "same_but ap p (?accs ! (?c - 1)) (fst rr)"
      unfolding rr_def using refresh_same_but by blast
    moreover have "?c - 1 < length ?accs" using cp cl by linarith
    ultimately have "frame ap p ?accs (?accs[?c - 1 := fst rr])"
      by (intro frame_update)
    with propagate_frame [OF pr] have "frame ap p ?accs accs'"
      by (blast intro: frame_trans)
    with s' show ?thesis by blast
  qed
  then obtain accs' where s': "s' = s\<lparr>m_accumulators := accs'\<rparr>"
    and fr: "frame ap p ?accs accs'" by blast
  from fr have len: "length accs' = length ?accs" by (simp add: frame_def)
  have "\<forall>ap' p'. computed (acc_of ap' (accs' ! 0)) p'"
    using frame_flags [OF fr, of 0] root cp cl
    by (metis less_le_trans)
  then have "root_inv s'"
    using c1 cl sz len by (simp add: s' root_inv_def)
  then show ?thesis using fr by (simp add: s')
qed

lemma evaluate_root:
  assumes ri: "root_inv s"
    and ev: "evaluate V fs ap pos ft cache s = Some (Inr (s', cache'))"
  shows "root_inv s' \<and> m_current_idx s' = m_current_idx s"
proof -
  from ev obtain s1 cache1 where
    e1: "evaluate_side V fs WHITE ap pos ft cache s = Some (Inr (s1, cache1))"
    and e2: "evaluate_side V fs BLACK ap pos ft cache1 s1 = Some (Inr (s', cache'))"
    by (auto simp: evaluate_def split: option.splits sum.splits)
  from evaluate_side_root [OF ri e1] have r1: "root_inv s1"
    and i1: "m_current_idx s1 = m_current_idx s" by simp_all
  from evaluate_side_root [OF r1 e2] i1 show ?thesis by simp
qed

lemma run_op_root:
  assumes ri: "root_inv s"
    and ro: "run_op V fs nets x (s, caches, path) = Some (Inr (s', caches', path'))"
  shows "root_inv s'"
proof (cases x)
  case (Push dp pos)
  with ro obtain t where "push dp s = Inr t" "s' = t"
    by (auto split: sum.splits)
  with push_root [OF ri] show ?thesis by blast
next
  case Pop
  with ro obtain t where "pop s = Inr t" "s' = t"
    by (auto split: sum.splits)
  with pop_root [OF ri] show ?thesis by blast
next
  case (Evaluate ap pos)
  with ro obtain c where
    "evaluate V fs ap pos (net_ft nets ap) (cache_of caches ap) s = Some (Inr (s', c))"
    by (auto split: option.splits sum.splits)
  with evaluate_root [OF ri] show ?thesis by blast
qed

lemma run_root:
  "root_inv s \<Longrightarrow> run V fs nets ops (s, caches, path) = Some (Inr (s', caches', path'))
   \<Longrightarrow> root_inv s'"
proof (induction ops arbitrary: s caches path)
  case Nil
  then show ?case by simp
next
  case (Cons x xs)
  from Cons.prems(2) obtain s1 c1 p1 where
    ro: "run_op V fs nets x (s, caches, path) = Some (Inr (s1, c1, p1))"
    and rest: "run V fs nets xs (s1, c1, p1) = Some (Inr (s', caches', path'))"
    by (auto split: option.splits sum.splits)
  from run_op_root [OF Cons.prems(1) ro] have "root_inv s1" .
  from Cons.IH [OF this rest] show ?case .
qed

text \<open>
  C9. When \<open>AccumulatorStack::reset\<close> has returned, the root state \<open>m_accumulators[0]\<close>
  has its computed flags set for both networks and both perspectives and the index is 1.
  After any sequence of \<open>push\<close>, \<open>pop\<close> and \<open>evaluate\<close> calls that then returns, the
  flags of the root are still set and the index is at least 1. In the state reached, a
  \<open>push\<close> resets the element at \<open>m_current_idx \<ge> 1\<close> and no other, so leaves the root
  as it is, and a \<open>pop\<close> leaves an index that is at least 1 and the vector as it is.
\<close>

theorem root_stays_computed:
  assumes sz: "length (m_accumulators s) < 2 ^ 64"
    and rs: "stack_reset V fs rootPos nets caches s = Inr (s0, c0)"
    and rn: "run V fs nets ops (s0, c0, path0) = Some (Inr (s1, c1, path1))"
  shows "(\<forall>ap p. computed (acc_of ap (m_accumulators s0 ! 0)) p) \<and> m_current_idx s0 = 1
     \<and> (\<forall>ap p. computed (acc_of ap (m_accumulators s1 ! 0)) p) \<and> 1 \<le> m_current_idx s1
     \<and> (\<forall>dp s2. push dp s1 = Inr s2 \<longrightarrow>
           1 \<le> unat (m_current_idx s1)
           \<and> m_accumulators s2 = (m_accumulators s1)
                [unat (m_current_idx s1) := reset dp (m_accumulators s1 ! unat (m_current_idx s1))]
           \<and> m_accumulators s2 ! 0 = m_accumulators s1 ! 0)
     \<and> (\<forall>s2. pop s1 = Inr s2 \<longrightarrow>
           m_current_idx s2 = m_current_idx s1 - 1 \<and> 1 \<le> m_current_idx s2
           \<and> m_accumulators s2 = m_accumulators s1)"
proof -
  from reset_root [OF rs sz] have r0: "root_inv s0" and i0: "m_current_idx s0 = 1"
    by simp_all
  from run_root [OF r0 rn] have r1: "root_inv s1" .
  from r0 i0 r1 push_root [OF r1] pop_root [OF r1] show ?thesis
    unfolding root_inv_def by blast
qed

theorem root_stays_computed_witness:
  "length (m_accumulators ex_stack) < 2 ^ 64
   \<and> (\<exists>s0 c0 s1 c1 path1 s2 s3.
         stack_reset True ex_fs (ex_position 4 60 12) ex_nets ex_caches ex_stack = Inr (s0, c0)
       \<and> run True ex_fs ex_nets
            [Push ((WHITE, PAWN), 12, 28) (ex_position 4 60 28),
             Evaluate accumulatorBigPtr (ex_position 4 60 28)]
            (s0, c0, [ex_position 4 60 12]) = Some (Inr (s1, c1, path1))
       \<and> (\<forall>ap p. computed (acc_of ap (m_accumulators s0 ! 0)) p) \<and> m_current_idx s0 = 1
       \<and> (\<forall>ap p. computed (acc_of ap (m_accumulators s1 ! 0)) p) \<and> 1 \<le> m_current_idx s1
       \<and> push ((BLACK, KING), 60, 59) s1 = Inr s2
       \<and> m_accumulators s2 ! 0 = m_accumulators s1 ! 0
       \<and> pop s1 = Inr s3 \<and> 1 \<le> m_current_idx s3)"
proof -
  let ?root = "ex_position 4 60 12" and ?p1 = "ex_position 4 60 28"
  let ?B = accumulatorBigPtr
  have h1: "0 < length (m_accumulators ex_stack)" by (simp add: ex_stack_def)
  have h2: "length (m_accumulators ex_stack) < 2 ^ 64" by (simp add: ex_stack_def)
  have l5: "length (m_accumulators ex_stack) = 5" by (simp add: ex_stack_def)
  from reset_correct [OF h1 h2 ex_caches_inv ex_position_ok, of True 4 60 12]
  obtain s0 c0 where
    r: "stack_reset True ex_fs ?root ex_nets ex_caches ex_stack = Inr (s0, c0)"
    and si0: "stack_inv ex_fs ex_nets [?root] s0" and ci0: "caches_inv ex_fs ex_nets c0"
    and l0: "length (m_accumulators s0) = length (m_accumulators ex_stack)"
    by blast
  have cap0: "length [?root] + 1 < length (m_accumulators s0)" using l0 l5 by simp
  have d1: "delta_ok ex_fs (last [?root]) ((WHITE, PAWN), 12, 28) ?p1"
    using ex_delta1 by simp
  from push_correct [OF si0 cap0 ex_position_ok d1]
  obtain sa where pa: "push ((WHITE, PAWN), 12, 28) s0 = Inr sa"
    and sia: "stack_inv ex_fs ex_nets ([?root] @ [?p1]) sa"
    and la: "length (m_accumulators sa) = length (m_accumulators s0)"
    by blast
  have pl: "?p1 = last ([?root] @ [?p1])" by simp
  from evaluate_correct [OF sia caches_inv_of [OF ci0] pl, where V = True and ap = ?B]
  obtain s1 cache1 where
    e: "evaluate True ex_fs ?B ?p1 (net_ft ex_nets ?B) (cache_of c0 ?B) sa
          = Some (Inr (s1, cache1))"
    and si1: "stack_inv ex_fs ex_nets ([?root] @ [?p1]) s1"
    and l1: "length (m_accumulators s1) = length (m_accumulators sa)"
    by blast
  have ru: "run True ex_fs ex_nets [Push ((WHITE, PAWN), 12, 28) ?p1, Evaluate ?B ?p1]
              (s0, c0, [?root]) = Some (Inr (s1, cache_store ?B cache1 c0, [?root] @ [?p1]))"
    using pa e by simp
  have cap1: "length ([?root] @ [?p1]) + 1 < length (m_accumulators s1)"
    using l1 la l0 l5 by simp
  have d2: "delta_ok ex_fs (last ([?root] @ [?p1])) ((BLACK, KING), 60, 59) (ex_position 4 59 28)"
    using ex_delta2 by simp
  from push_correct [OF si1 cap1 ex_position_ok d2]
  obtain s2 where p2: "push ((BLACK, KING), 60, 59) s1 = Inr s2" by blast
  have "1 < length ([?root] @ [?p1])" by simp
  from pop_correct [OF si1 this]
  obtain s3 where p3: "pop s1 = Inr s3" by blast
  from root_stays_computed [OF h2 r ru] h2 r ru p2 p3
  show ?thesis by blast
qed

subsection \<open>The refresh cache\<close>

text \<open>
  A refresh writes one entry of the cache, the one of the king square and perspective
  at hand, and stores the bitboards of the position there whatever the entry held. The
  operations of the stack reach the cache through the refresh kernel only.
\<close>

lemma refresh_bitboards:
  "byColorBB (snd (update_accumulator_refresh_cache V fs p ap ft pos st cache)
                (king_square pos p) p) = pieces_c pos
   \<and> byTypeBB (snd (update_accumulator_refresh_cache V fs p ap ft pos st cache)
                (king_square pos p) p) = pieces_pt pos"
  by (simp add: update_accumulator_refresh_cache_def Let_def split_beta fold_colors
        fold_piece_types)

lemma refresh_other_entries:
  "ksq \<noteq> king_square pos p \<or> p' \<noteq> p \<Longrightarrow>
   snd (update_accumulator_refresh_cache V fs p ap ft pos st cache) ksq p' = cache ksq p'"
  by (auto simp: update_accumulator_refresh_cache_def Let_def split_beta)

lemma refresh_snd_inv:
  assumes "cache_inv fs ft cache" and "position_ok pos"
  shows "cache_inv fs ft (snd (update_accumulator_refresh_cache V fs p ap ft pos st cache))"
  using refresh_cache_inv [OF assms, of V p ap st] by auto

lemma evaluate_side_cache:
  assumes ci: "cache_inv fs ft cache" and pok: "position_ok pos"
    and ev: "evaluate_side V fs p ap pos ft cache s = Some (Inr (s', cache'))"
  shows "cache_inv fs ft cache'"
proof -
  have "cache' = cache
        \<or> (\<exists>l. cache' = snd (update_accumulator_refresh_cache V fs p ap ft pos l cache))"
    using ev
    by (auto simp: evaluate_side_def Let_def split_beta
             split: sum.splits if_splits option.splits)
  with ci refresh_snd_inv [OF ci pok] show ?thesis by auto
qed

lemma evaluate_cache:
  assumes ci: "cache_inv fs ft cache" and pok: "position_ok pos"
    and ev: "evaluate V fs ap pos ft cache s = Some (Inr (s', cache'))"
  shows "cache_inv fs ft cache'"
proof -
  from ev obtain s1 cache1 where
    e1: "evaluate_side V fs WHITE ap pos ft cache s = Some (Inr (s1, cache1))"
    and e2: "evaluate_side V fs BLACK ap pos ft cache1 s1 = Some (Inr (s', cache'))"
    by (auto simp: evaluate_def split: option.splits sum.splits)
  from evaluate_side_cache [OF evaluate_side_cache [OF ci pok e1] pok e2] show ?thesis .
qed

lemma run_op_caches:
  assumes ci: "caches_inv fs nets caches"
    and pok: "\<forall>ap pos. x = Evaluate ap pos \<longrightarrow> position_ok pos"
    and ro: "run_op V fs nets x (s, caches, path) = Some (Inr (s', caches', path'))"
  shows "caches_inv fs nets caches'"
proof (cases x)
  case (Push dp pos)
  with ro have "caches' = caches" by (auto split: sum.splits)
  with ci show ?thesis by simp
next
  case Pop
  with ro have "caches' = caches" by (auto split: sum.splits)
  with ci show ?thesis by simp
next
  case (Evaluate ap pos)
  with ro obtain c where
    e: "evaluate V fs ap pos (net_ft nets ap) (cache_of caches ap) s = Some (Inr (s', c))"
    and c: "caches' = cache_store ap c caches"
    by (auto split: option.splits sum.splits)
  from pok Evaluate have "position_ok pos" by simp
  from evaluate_cache [OF caches_inv_of [OF ci] this e]
  have "cache_inv fs (net_ft nets ap) c" .
  from caches_inv_store [OF ci this] c show ?thesis by simp
qed

lemma run_caches:
  "caches_inv fs nets caches \<Longrightarrow> \<forall>ap pos. Evaluate ap pos \<in> set ops \<longrightarrow> position_ok pos
   \<Longrightarrow> run V fs nets ops (s, caches, path) = Some (Inr (s', caches', path'))
   \<Longrightarrow> caches_inv fs nets caches'"
proof (induction ops arbitrary: s caches path)
  case Nil
  then show ?case by simp
next
  case (Cons x xs)
  from Cons.prems(3) obtain s1 c1 p1 where
    ro: "run_op V fs nets x (s, caches, path) = Some (Inr (s1, c1, p1))"
    and rest: "run V fs nets xs (s1, c1, p1) = Some (Inr (s', caches', path'))"
    by (auto split: option.splits sum.splits)
  from Cons.prems(2) have px: "\<forall>ap pos. x = Evaluate ap pos \<longrightarrow> position_ok pos"
    and pxs: "\<forall>ap pos. Evaluate ap pos \<in> set xs \<longrightarrow> position_ok pos"
    by auto
  from run_op_caches [OF Cons.prems(1) px ro] have "caches_inv fs nets c1" .
  from Cons.IH [OF this pxs rest] show ?case .
qed

lemma reset_caches:
  assumes ci: "caches_inv fs nets caches" and pok: "position_ok rootPos"
    and r: "stack_reset V fs rootPos nets caches s = Inr (s0, c0)"
  shows "caches_inv fs nets c0"
proof -
  let ?B = accumulatorBigPtr and ?S = accumulatorSmallPtr
  from r obtain st0 where a: "at (m_accumulators s) 0 = Inr st0"
    by (auto simp: stack_reset_def split: sum.splits)
  define r1 where "r1 = update_accumulator_refresh_cache V fs WHITE ?B (net_big nets) rootPos
                          st0 (cache_big caches)"
  define r2 where "r2 = update_accumulator_refresh_cache V fs BLACK ?B (net_big nets) rootPos
                          (fst r1) (snd r1)"
  define r3 where "r3 = update_accumulator_refresh_cache V fs WHITE ?S (net_small nets) rootPos
                          (fst r2) (cache_small caches)"
  define r4 where "r4 = update_accumulator_refresh_cache V fs BLACK ?S (net_small nets) rootPos
                          (fst r3) (snd r3)"
  from r a have c0: "c0 = caches\<lparr>cache_big := snd r2, cache_small := snd r4\<rparr>"
    by (simp add: stack_reset_def r1_def r2_def r3_def r4_def split_beta)
  from ci have cb: "cache_inv fs (net_big nets) (cache_big caches)"
    and cs: "cache_inv fs (net_small nets) (cache_small caches)"
    by (simp_all add: caches_inv_def)
  have "cache_inv fs (net_big nets) (snd r1)"
    unfolding r1_def using cb pok by (rule refresh_snd_inv)
  then have b: "cache_inv fs (net_big nets) (snd r2)"
    unfolding r2_def using pok by (rule refresh_snd_inv)
  have "cache_inv fs (net_small nets) (snd r3)"
    unfolding r3_def using cs pok by (rule refresh_snd_inv)
  then have "cache_inv fs (net_small nets) (snd r4)"
    unfolding r4_def using pok by (rule refresh_snd_inv)
  with b show ?thesis by (simp add: c0 caches_inv_def)
qed

text \<open>
  C6. Let the caches satisfy the cache invariant and let the position answer
  \<open>pieces(c, pt)\<close> with \<open>pieces(c) & pieces(pt)\<close>. After a call of the refresh kernel, the
  entry of the king square and perspective has \<open>byColorBB\<close> and \<open>byTypeBB\<close> equal to
  \<open>pos.pieces(\<cdot>)\<close>, and its dense and PSQT snapshot is the full transform of the position
  described by the stored bitboards, seen from that perspective with the king on that
  square, which is the full transform of the refreshed position; the other entries are
  as before, so the cache satisfies the invariant again. The invariant is preserved by
  \<open>AccumulatorStack::reset\<close> and by every sequence of \<open>push\<close>, \<open>pop\<close> and \<open>evaluate\<close>
  calls in which the positions evaluated are such positions.
\<close>

theorem cache_invariant_preserved:
  assumes ci: "caches_inv fs nets caches" and pok: "position_ok pos"
    and rf: "update_accumulator_refresh_cache V fs p ap (net_ft nets ap) pos st
               (cache_of caches ap) = (st', cache')"
  shows "byColorBB (cache' (king_square pos p) p) = pieces_c pos
     \<and> byTypeBB (cache' (king_square pos p) p) = pieces_pt pos
     \<and> entry_accumulation (cache' (king_square pos p) p)
         = full_dense (net_ft nets ap)
             (active_indices fs p (king_square pos p) (entry_bbs (cache' (king_square pos p) p)))
     \<and> entry_psqtAccumulation (cache' (king_square pos p) p)
         = full_psqt (net_ft nets ap)
             (active_indices fs p (king_square pos p) (entry_bbs (cache' (king_square pos p) p)))
     \<and> entry_accumulation (cache' (king_square pos p) p)
         = full_dense (net_ft nets ap) (position_features fs p pos)
     \<and> entry_psqtAccumulation (cache' (king_square pos p) p)
         = full_psqt (net_ft nets ap) (position_features fs p pos)
     \<and> (\<forall>ksq p'. ksq \<noteq> king_square pos p \<or> p' \<noteq> p
           \<longrightarrow> cache' ksq p' = cache_of caches ap ksq p')
     \<and> cache_inv fs (net_ft nets ap) cache'
     \<and> caches_inv fs nets (cache_store ap cache' caches)
     \<and> (\<forall>s0 c0. stack_reset V fs pos nets caches s = Inr (s0, c0) \<longrightarrow> caches_inv fs nets c0)
     \<and> (\<forall>s1 c1 path1.
           (\<forall>ap' pos'. Evaluate ap' pos' \<in> set ops \<longrightarrow> position_ok pos')
           \<and> run V fs nets ops (s, caches, path) = Some (Inr (s1, c1, path1))
           \<longrightarrow> caches_inv fs nets c1)"
proof -
  let ?ft = "net_ft nets ap"
  let ?cache = "cache_of caches ap"
  let ?ksq = "king_square pos p"
  from ci have c: "cache_inv fs ?ft ?cache" by (rule caches_inv_of)
  then have e: "cache_entry_inv fs ?ft p ?ksq (?cache ?ksq p)" by (simp add: cache_inv_def)
  from rf have c': "cache' = snd (update_accumulator_refresh_cache V fs p ap ?ft pos st ?cache)"
    by simp
  have ent: "cache' ?ksq p = refreshed_cache_entry fs p ?ft pos"
    using e by (simp add: c' refresh_unfold)
  have inv': "cache_inv fs ?ft cache'"
    unfolding c' using c pok by (rule refresh_snd_inv)
  then have e': "cache_entry_inv fs ?ft p ?ksq (cache' ?ksq p)" by (simp add: cache_inv_def)
  have bb: "byColorBB (cache' ?ksq p) = pieces_c pos" "byTypeBB (cache' ?ksq p) = pieces_pt pos"
    by (simp_all add: ent refreshed_cache_entry_def)
  have sn: "entry_accumulation (cache' ?ksq p) = full_dense ?ft (position_features fs p pos)"
    "entry_psqtAccumulation (cache' ?ksq p) = full_psqt ?ft (position_features fs p pos)"
    by (simp_all add: ent refreshed_cache_entry_def position_features_def)
  have st: "caches_inv fs nets (cache_store ap cache' caches)"
    using ci inv' by (rule caches_inv_store)
  have rs: "\<forall>s0 c0. stack_reset V fs pos nets caches s = Inr (s0, c0)
              \<longrightarrow> caches_inv fs nets c0"
    using reset_caches [OF ci pok] by blast
  have rn: "\<forall>s1 c1 path1.
           (\<forall>ap' pos'. Evaluate ap' pos' \<in> set ops \<longrightarrow> position_ok pos')
           \<and> run V fs nets ops (s, caches, path) = Some (Inr (s1, c1, path1))
           \<longrightarrow> caches_inv fs nets c1"
    using run_caches [OF ci] by blast
  from e' have inv: "entry_accumulation (cache' ?ksq p)
         = full_dense ?ft (active_indices fs p ?ksq (entry_bbs (cache' ?ksq p)))"
    "entry_psqtAccumulation (cache' ?ksq p)
         = full_psqt ?ft (active_indices fs p ?ksq (entry_bbs (cache' ?ksq p)))"
    by (simp_all add: cache_entry_inv_def)
  have oth: "\<forall>ksq p'. ksq \<noteq> ?ksq \<or> p' \<noteq> p \<longrightarrow> cache' ksq p' = ?cache ksq p'"
    unfolding c' using refresh_other_entries by blast
  show ?thesis
    using bb sn inv' st rs rn inv oth by (intro conjI)
qed

theorem cache_invariant_preserved_witness:
  "caches_inv ex_fs ex_nets ex_caches \<and> position_ok (ex_position 4 60 12)
   \<and> (\<exists>st' cache'.
         update_accumulator_refresh_cache True ex_fs WHITE accumulatorBigPtr
           (net_ft ex_nets accumulatorBigPtr) (ex_position 4 60 12) ex_target
           (cache_of ex_caches accumulatorBigPtr) = (st', cache')
       \<and> byColorBB (cache' (king_square (ex_position 4 60 12) WHITE) WHITE)
           = pieces_c (ex_position 4 60 12)
       \<and> byTypeBB (cache' (king_square (ex_position 4 60 12) WHITE) WHITE)
           = pieces_pt (ex_position 4 60 12)
       \<and> entry_accumulation (cache' (king_square (ex_position 4 60 12) WHITE) WHITE)
           = full_dense (net_ft ex_nets accumulatorBigPtr)
               (position_features ex_fs WHITE (ex_position 4 60 12))
       \<and> entry_psqtAccumulation (cache' (king_square (ex_position 4 60 12) WHITE) WHITE)
           = full_psqt (net_ft ex_nets accumulatorBigPtr)
               (position_features ex_fs WHITE (ex_position 4 60 12))
       \<and> cache' 0 WHITE = cache_of ex_caches accumulatorBigPtr 0 WHITE
       \<and> cache_inv ex_fs (net_ft ex_nets accumulatorBigPtr) cache')
   \<and> (\<exists>s0 c0 s1 c1 path1.
         stack_reset True ex_fs (ex_position 4 60 12) ex_nets ex_caches ex_stack = Inr (s0, c0)
       \<and> caches_inv ex_fs ex_nets c0
       \<and> run True ex_fs ex_nets
            [Push ((WHITE, PAWN), 12, 28) (ex_position 4 60 28),
             Evaluate accumulatorBigPtr (ex_position 4 60 28)]
            (s0, c0, [ex_position 4 60 12]) = Some (Inr (s1, c1, path1))
       \<and> caches_inv ex_fs ex_nets c1)"
proof -
  let ?root = "ex_position 4 60 12" and ?p1 = "ex_position 4 60 28"
  let ?B = accumulatorBigPtr
  let ?ops = "[Push ((WHITE, PAWN), 12, 28) ?p1, Evaluate ?B ?p1]"
  have h1: "0 < length (m_accumulators ex_stack)" by (simp add: ex_stack_def)
  have h2: "length (m_accumulators ex_stack) < 2 ^ 64" by (simp add: ex_stack_def)
  have l5: "length (m_accumulators ex_stack) = 5" by (simp add: ex_stack_def)
  have pok: "position_ok ?root" by (rule ex_position_ok)
  obtain st' cache' where
    rf: "update_accumulator_refresh_cache True ex_fs WHITE ?B (net_ft ex_nets ?B) ?root
           ex_target (cache_of ex_caches ?B) = (st', cache')"
    by (cases "update_accumulator_refresh_cache True ex_fs WHITE ?B (net_ft ex_nets ?B) ?root
                 ex_target (cache_of ex_caches ?B)")
  have ks: "0 \<noteq> king_square ?root WHITE \<or> WHITE \<noteq> WHITE"
    by (simp add: ex_position_def)
  from reset_correct [OF h1 h2 ex_caches_inv ex_position_ok, of True 4 60 12]
  obtain s0 c0 where
    r: "stack_reset True ex_fs ?root ex_nets ex_caches ex_stack = Inr (s0, c0)"
    and si0: "stack_inv ex_fs ex_nets [?root] s0"
    and l0: "length (m_accumulators s0) = length (m_accumulators ex_stack)"
    by blast
  note first = cache_invariant_preserved [OF ex_caches_inv pok rf,
      where s = ex_stack and ops = ?ops and path = "[?root]"]
  from first r have ci0: "caches_inv ex_fs ex_nets c0" by blast
  have cap0: "length [?root] + 1 < length (m_accumulators s0)" using l0 l5 by simp
  have d1: "delta_ok ex_fs (last [?root]) ((WHITE, PAWN), 12, 28) ?p1"
    using ex_delta1 by simp
  from push_correct [OF si0 cap0 ex_position_ok d1]
  obtain sa where pa: "push ((WHITE, PAWN), 12, 28) s0 = Inr sa"
    and sia: "stack_inv ex_fs ex_nets ([?root] @ [?p1]) sa"
    by blast
  have pl: "?p1 = last ([?root] @ [?p1])" by simp
  from evaluate_correct [OF sia caches_inv_of [OF ci0] pl, where V = True and ap = ?B]
  obtain s1 cache1 where
    e: "evaluate True ex_fs ?B ?p1 (net_ft ex_nets ?B) (cache_of c0 ?B) sa
          = Some (Inr (s1, cache1))"
    by blast
  have ru: "run True ex_fs ex_nets ?ops (s0, c0, [?root])
              = Some (Inr (s1, cache_store ?B cache1 c0, [?root] @ [?p1]))"
    using pa e by simp
  obtain st2 cache2 where
    rf2: "update_accumulator_refresh_cache True ex_fs WHITE ?B (net_ft ex_nets ?B) ?root
            ex_target (cache_of c0 ?B) = (st2, cache2)"
    by (cases "update_accumulator_refresh_cache True ex_fs WHITE ?B (net_ft ex_nets ?B) ?root
                 ex_target (cache_of c0 ?B)")
  have oks: "\<forall>ap' pos'. Evaluate ap' pos' \<in> set ?ops \<longrightarrow> position_ok pos'"
    by (simp add: ex_position_ok)
  note second = cache_invariant_preserved [OF ci0 pok rf2,
      where s = s0 and ops = ?ops and path = "[?root]"]
  from second oks ru have ci1: "caches_inv ex_fs ex_nets (cache_store ?B cache1 c0)" by blast
  from first ks have "cache' 0 WHITE = cache_of ex_caches ?B 0 WHITE" by blast
  with first rf r ci0 ru ci1 ex_caches_inv pok show ?thesis by blast
qed

subsection \<open>The evaluation of one perspective\<close>

text \<open>
  Within the vector, one pass of either loop is the pass of the specification: the
  kernel returns the source plus the added and minus the removed columns when its
  assertions hold and fails otherwise. From a cache entry that satisfies the cache
  invariant the refresh kernel leaves the full transform of the position.
\<close>

lemma update_at_pass:
  assumes t: "t < length accs" and s: "s < length accs" and sz: "length accs < 2 ^ 64"
  shows "update_at fs p d ap ft ksq (of_nat t) (of_nat s) accs
           = incremental_pass fs p d ap ft ksq t s accs"
proof -
  have ut: "unat (of_nat t :: size_t) = t" using t sz by (intro unat_of_nat_size_t) simp
  have us: "unat (of_nat s :: size_t) = s" using s sz by (intro unat_of_nat_size_t) simp
  obtain removed added where
    ci: "changed_indices fs p d ksq (accs ! t) (accs ! s) = (removed, added)"
    by (cases "changed_indices fs p d ksq (accs ! t) (accs ! s)")
  show ?thesis
  proof (cases "computed (acc_of ap (accs ! s)) p \<and> \<not> computed (acc_of ap (accs ! t)) p
                \<and> sizes_ok d removed added")
    case True
    then have "update_accumulator_incremental fs p d ap ft ksq (accs ! t) (accs ! s)
                 = Inr (incremental_result p ap ft removed added (accs ! t) (accs ! s))"
      using ci by (intro kernel_unfold) simp_all
    then show ?thesis
      using True t s by (simp add: update_at_def at_def ut us incremental_pass_def ci)
  next
    case False
    from kernel_fails [OF ci False]
    have "update_accumulator_incremental fs p d ap ft ksq (accs ! t) (accs ! s)
            = Inl AssertionFailed" .
    then show ?thesis
      using False t s by (simp add: update_at_def at_def ut us incremental_pass_def ci)
  qed
qed

lemma incremental_pass_length:
  "incremental_pass fs p d ap ft ksq t s accs = Inr accs' \<Longrightarrow> length accs' = length accs"
  by (auto simp: incremental_pass_def split: prod.splits if_splits)

lemma propagate_passes:
  "\<forall>(t, s) \<in> set pairs. t < length accs \<and> s < length accs \<Longrightarrow> length accs < 2 ^ 64 \<Longrightarrow>
   propagate fs p d ap ft ksq pairs accs = incremental_passes fs p d ap ft ksq pairs accs"
proof (induction pairs arbitrary: accs)
  case Nil
  then show ?case by simp
next
  case (Cons x xs)
  obtain t s where x: "x = (t, s)" by (cases x)
  from Cons.prems x have t: "t < length accs" and s: "s < length accs" by simp_all
  have step: "update_at fs p d ap ft ksq (of_nat t) (of_nat s) accs
                = incremental_pass fs p d ap ft ksq t s accs"
    using t s Cons.prems(2) by (rule update_at_pass)
  show ?case
  proof (cases "incremental_pass fs p d ap ft ksq t s accs")
    case (Inl e)
    then show ?thesis by (simp add: x step)
  next
    case (Inr accs')
    from incremental_pass_length [OF Inr] have len: "length accs' = length accs" .
    have "propagate fs p d ap ft ksq xs accs' = incremental_passes fs p d ap ft ksq xs accs'"
      using Cons.prems len by (intro Cons.IH) auto
    then show ?thesis by (simp add: x step Inr)
  qed
qed

lemma described_specified:
  assumes c1: "1 \<le> m_current_idx s"
    and cl: "unat (m_current_idx s) \<le> length (m_accumulators s)"
    and sz: "length (m_accumulators s) < 2 ^ 64"
    and ce: "cache_entry_inv fs ft p (king_square pos p) (cache (king_square pos p) p)"
  shows "described_evaluate_side V fs p ap pos ft cache s
           = specified_evaluate_side fs p ap pos ft cache s"
proof -
  let ?accs = "m_accumulators s"
  let ?c = "unat (m_current_idx s)"
  let ?k = "last_usable fs p ap s"
  let ?ksq = "king_square pos p"
  from c1 have cp: "0 < ?c" by (simp add: word_le_nat_alt)
  have fw: "propagate fs p FORWARD ap ft ?ksq (forward_pairs ?k ?c) ?accs
              = incremental_passes fs p FORWARD ap ft ?ksq (forward_pairs ?k ?c) ?accs"
    using cl sz by (intro propagate_passes) (auto simp: forward_pairs_def)
  let ?accs1 = "?accs[?c - 1 := refreshed_state fs p ap ft pos (?accs ! (?c - 1))]"
  have bw: "propagate fs p BACKWARD ap ft ?ksq (backward_pairs ?k ?c) ?accs1
              = incremental_passes fs p BACKWARD ap ft ?ksq (backward_pairs ?k ?c) ?accs1"
    using cl sz by (intro propagate_passes) (auto simp: backward_pairs_def)
  have rf: "update_accumulator_refresh_cache V fs p ap ft pos (?accs ! (?c - 1)) cache
              = (refreshed_state fs p ap ft pos (?accs ! (?c - 1)),
                 cache(?ksq := (cache ?ksq)(p := refreshed_cache_entry fs p ft pos)))"
    using ce by (simp add: refresh_unfold)
  show ?thesis
    using fw bw rf
    by (simp add: described_evaluate_side_def specified_evaluate_side_def Let_def)
qed

text \<open>
  C5. Take a stack whose index is at least 1 and within the vector and whose root is
  computed for the perspective \<open>p\<close>, as in every state after \<open>reset\<close>, and a cache whose
  entry for the king square and \<open>p\<close> satisfies the cache invariant. Then
  \<open>find_last_usable_accumulator\<close> returns the largest index \<open>k\<close> below \<open>m_current_idx\<close> whose
  state is computed or, not being the root, has a dirty piece that requires a refresh
  (0 when there is none), and \<open>evaluate_side\<close> returns what the specification says. When
  state \<open>k\<close> is computed: for \<open>i\<close> from \<open>k + 1\<close> to \<open>m_current_idx - 1\<close>, state \<open>i\<close> becomes
  state \<open>i - 1\<close> plus the added and minus the removed columns of its own dirty piece.
  Otherwise the latest state \<open>m_current_idx - 1\<close> receives the full transform of the
  position, the cache entry the description of the position, and for \<open>i\<close> from
  \<open>m_current_idx - 2\<close> down to \<open>k\<close>, state \<open>i\<close> becomes state \<open>i + 1\<close> plus the removed and
  minus the added columns of \<open>states[i+1].dirtyPiece\<close>. A pass whose source is not
  computed, whose target is computed or whose index lists break the contract fails an
  assertion, in the specification as in the code.
\<close>

theorem evaluate_side_selects_and_propagates:
  assumes "1 \<le> m_current_idx s"
    and "unat (m_current_idx s) \<le> length (m_accumulators s)"
    and "length (m_accumulators s) < 2 ^ 64"
    and "computed (acc_of ap (m_accumulators s ! 0)) p"
    and "cache_entry_inv fs ft p (king_square pos p) (cache (king_square pos p) p)"
  shows "find_last_usable_accumulator fs p ap s = Inr (of_nat (last_usable fs p ap s))
     \<and> last_usable fs p ap s < unat (m_current_idx s)
     \<and> usable fs p ap (m_accumulators s) (last_usable fs p ap s)
     \<and> (\<forall>i. last_usable fs p ap s < i \<and> i < unat (m_current_idx s)
            \<longrightarrow> \<not> usable fs p ap (m_accumulators s) i)
     \<and> evaluate_side V fs p ap pos ft cache s
          = Some (specified_evaluate_side fs p ap pos ft cache s)"
proof -
  from assms(1) have cpos: "0 < unat (m_current_idx s)" by (simp add: word_le_nat_alt)
  have "evaluate_side V fs p ap pos ft cache s
          = Some (specified_evaluate_side fs p ap pos ft cache s)"
    using evaluate_side_described [OF assms(1-4), of V fs pos ft cache] assms
    by (simp add: described_specified)
  then show ?thesis
    using find_last_usable_accumulator_eq [OF assms(1,2)]
      last_usable_props(1,2) [OF cpos] last_usable_props(4) [OF cpos assms(4)]
    by blast
qed

subsection \<open>A stack reached by three pushes\<close>

text \<open>
  \<open>reset\<close> at the root position followed by the three pushes of \<open>ex_ops2\<close> returns and
  leaves the stack \<open>ex_deep\<close>. For the black perspective the walk back stops at index 1,
  whose dirty piece moves the black king; for the white perspective it stops at the root.
\<close>

lemma reset_vector:
  "stack_reset V fs rootPos nets caches s = Inr (s0, c0) \<Longrightarrow>
   \<exists>st. m_accumulators s0 = (m_accumulators s)[0 := st]"
  by (auto simp: stack_reset_def split_beta split: sum.splits)

lemma ex_reset_eq:
  "stack_reset True ex_fs (ex_position 4 60 12) ex_nets ex_caches ex_stack = Inr ex_reset"
  "stack_inv ex_fs ex_nets [ex_position 4 60 12] (fst ex_reset)"
  "caches_inv ex_fs ex_nets (snd ex_reset)"
  "m_current_idx (fst ex_reset) = 1"
  "m_accumulators (fst ex_reset)
     = [m_accumulators (fst ex_reset) ! 0, ex_target, ex_target, ex_target, ex_target]"
proof -
  have h1: "0 < length (m_accumulators ex_stack)" by (simp add: ex_stack_def)
  have h2: "length (m_accumulators ex_stack) < 2 ^ 64" by (simp add: ex_stack_def)
  from reset_correct [OF h1 h2 ex_caches_inv ex_position_ok, of True 4 60 12]
  obtain s0 c0 where
    r: "stack_reset True ex_fs (ex_position 4 60 12) ex_nets ex_caches ex_stack = Inr (s0, c0)"
    and si0: "stack_inv ex_fs ex_nets [ex_position 4 60 12] s0"
    and ci0: "caches_inv ex_fs ex_nets c0"
    by blast
  from r have e: "ex_reset = (s0, c0)" by (simp add: ex_reset_def)
  from r show "stack_reset True ex_fs (ex_position 4 60 12) ex_nets ex_caches ex_stack
                 = Inr ex_reset" by (simp add: e)
  from si0 show "stack_inv ex_fs ex_nets [ex_position 4 60 12] (fst ex_reset)" by (simp add: e)
  from ci0 show "caches_inv ex_fs ex_nets (snd ex_reset)" by (simp add: e)
  from reset_root [OF r h2] show "m_current_idx (fst ex_reset) = 1" by (simp add: e)
  from reset_vector [OF r] obtain st where "m_accumulators s0 = (m_accumulators ex_stack)[0 := st]"
    by blast
  then have "m_accumulators s0 = [st, ex_target, ex_target, ex_target, ex_target]"
    by (simp add: ex_stack_def)
  then show "m_accumulators (fst ex_reset)
     = [m_accumulators (fst ex_reset) ! 0, ex_target, ex_target, ex_target, ex_target]"
    by (simp add: e)
qed

lemma ex_deep_reached:
  "run True ex_fs ex_nets ex_ops2 (fst ex_reset, snd ex_reset, [ex_position 4 60 12])
     = Some (Inr (ex_deep, snd ex_reset,
                  [ex_position 4 60 12, ex_position 4 59 12, ex_position 4 59 28,
                   ex_position 4 59 36]))"
proof -
  obtain accs cur m where s0: "fst ex_reset = \<lparr>m_accumulators = accs, m_current_idx = cur\<rparr>"
    by (cases "fst ex_reset") simp
  from ex_reset_eq(4) s0 have cur: "cur = 1" by simp
  from ex_reset_eq(5) s0 have accs: "accs = [accs ! 0, ex_target, ex_target, ex_target, ex_target]"
    by simp
  have u2: "unat (2 :: size_t) = 2" and u3: "unat (3 :: size_t) = 3" by simp_all
  have "run True ex_fs ex_nets ex_ops2
          (\<lparr>m_accumulators = [accs ! 0, ex_target, ex_target, ex_target, ex_target],
            m_current_idx = 1\<rparr>, snd ex_reset, [ex_position 4 60 12])
     = Some (Inr (\<lparr>m_accumulators =
                     [accs ! 0, reset ((BLACK, KING), 60, 59) ex_target,
                      reset ((WHITE, PAWN), 12, 28) ex_target,
                      reset ((WHITE, PAWN), 28, 36) ex_target, ex_target],
                   m_current_idx = 4\<rparr>, snd ex_reset,
                  [ex_position 4 60 12, ex_position 4 59 12, ex_position 4 59 28,
                   ex_position 4 59 36]))"
    by (simp add: ex_ops2_def push_def at_def size_of_def)
  with accs show ?thesis by (simp add: s0 cur ex_deep_def)
qed

lemma ex_delta4:
  "delta_ok ex_fs (ex_position 4 60 12) ((BLACK, KING), 60, 59) (ex_position 4 59 12)"
  by (simp add: delta_ok_def colors_def ex_fs_def sizes_ok_def
        position_features_def active_indices_def piece_types_def squares_def make_piece_def
        ex_position_def ex_index_def bit_simps upt_rec [of _ "numeral _"] upt_rec [of _ "Suc _"])

lemma ex_delta5:
  "delta_ok ex_fs (ex_position 4 59 12) ((WHITE, PAWN), 12, 28) (ex_position 4 59 28)"
  by (simp add: delta_ok_def colors_def ex_fs_def sizes_ok_def
        position_features_def active_indices_def piece_types_def squares_def make_piece_def
        ex_position_def ex_index_def bit_simps upt_rec [of _ "numeral _"] upt_rec [of _ "Suc _"])

lemma ex_ops2_ok: "ops_ok ex_fs 5 [ex_position 4 60 12] ex_ops2"
  by (simp add: ex_ops2_def ex_position_ok ex_delta4 ex_delta5 ex_delta3)

lemma ex_deep_inv:
  "stack_inv ex_fs ex_nets
     [ex_position 4 60 12, ex_position 4 59 12, ex_position 4 59 28, ex_position 4 59 36] ex_deep"
proof -
  have "length (m_accumulators (fst ex_reset)) = 5" by (subst ex_reset_eq(5)) simp
  then have "ops_ok ex_fs (length (m_accumulators (fst ex_reset))) [ex_position 4 60 12] ex_ops2"
    using ex_ops2_ok by (simp only:)
  from run_correct [OF ex_reset_eq(2,3) this, of True] ex_deep_reached
  show ?thesis by auto
qed

lemma ex_deep_shape:
  "m_current_idx ex_deep = 4"
  "length (m_accumulators ex_deep) = 5"
  "\<not> computed (acc_of ap (m_accumulators ex_deep ! 1)) p"
  "\<not> computed (acc_of ap (m_accumulators ex_deep ! 2)) p"
  "\<not> computed (acc_of ap (m_accumulators ex_deep ! 3)) p"
  "dirtyPiece (m_accumulators ex_deep ! 1) = ((BLACK, KING), 60, 59)"
  "dirtyPiece (m_accumulators ex_deep ! 2) = ((WHITE, PAWN), 12, 28)"
  "dirtyPiece (m_accumulators ex_deep ! 3) = ((WHITE, PAWN), 28, 36)"
  by (cases ap; simp add: ex_deep_def reset_def)+

lemma ex_deep_root: "computed (acc_of ap (m_accumulators ex_deep ! 0)) p"
  using ex_deep_inv by (simp add: stack_inv_def root_inv_def)

lemma ex_deep_last_usable:
  "last_usable ex_fs BLACK ap ex_deep = 1"
  "last_usable ex_fs WHITE ap ex_deep = 0"
proof -
  have u: "usable ex_fs p ap (m_accumulators ex_deep) 3 = False"
    "usable ex_fs p ap (m_accumulators ex_deep) 2 = False"
    "usable ex_fs BLACK ap (m_accumulators ex_deep) 1 = True"
    "usable ex_fs WHITE ap (m_accumulators ex_deep) 1 = False"
    "usable ex_fs p ap (m_accumulators ex_deep) 0 = True" for p
    using ex_deep_root [of ap p] ex_deep_shape(3-5) [of ap p] ex_deep_shape(3) [of ap BLACK]
      ex_deep_shape(3) [of ap WHITE] ex_deep_shape(6-8)
    by (simp_all add: usable_def ex_fs_def)
  have r: "rev [0..<unat (m_current_idx ex_deep)] = [3, 2, 1, 0]"
    by (simp add: ex_deep_shape upt_rec [of _ "numeral _"] upt_rec [of _ "Suc _"])
  show "last_usable ex_fs BLACK ap ex_deep = 1" "last_usable ex_fs WHITE ap ex_deep = 0"
    using u by (simp_all add: last_usable_def r)
qed

lemma ex_deep_backward:
  "\<exists>accs'. propagate ex_fs BLACK BACKWARD accumulatorBigPtr ex_ft 59 (backward_pairs 1 4)
              ex_deep_refreshed = Inr accs'
     \<and> computed (acc_of accumulatorBigPtr (accs' ! 1)) BLACK
     \<and> computed (acc_of accumulatorBigPtr (accs' ! 2)) BLACK"
proof -
  let ?B = accumulatorBigPtr
  let ?q3 = "ex_position 4 59 36"
  let ?path = "[ex_position 4 60 12, ex_position 4 59 12, ex_position 4 59 28, ?q3]"
  have pos: "?q3 = last ?path" by simp
  have ci: "cache_inv ex_fs (net_ft ex_nets ?B) (cache_big (snd ex_reset))"
    using caches_inv_of [OF ex_reset_eq(3), of ?B] by simp
  from evaluate_side_correct [OF ex_deep_inv ci pos, of True BLACK]
  obtain s' cache' where
    ev: "evaluate_side True ex_fs BLACK ?B ?q3 (net_ft ex_nets ?B) (cache_big (snd ex_reset))
           ex_deep = Some (Inr (s', cache'))"
    by blast
  have c1: "1 \<le> m_current_idx ex_deep" by (simp add: ex_deep_shape)
  have cl: "unat (m_current_idx ex_deep) \<le> length (m_accumulators ex_deep)"
    by (simp add: ex_deep_shape)
  have sz: "length (m_accumulators ex_deep) < 2 ^ 64" by (simp add: ex_deep_shape)
  have ft: "net_ft ex_nets ?B = ex_ft" by (simp add: ex_nets_def)
  have ks: "king_square ?q3 BLACK = 59" by (simp add: ex_position_def)
  from ev evaluate_side_described [OF c1 cl sz ex_deep_root, of True ex_fs BLACK ?B ?q3]
  have d: "described_evaluate_side True ex_fs BLACK ?B ?q3 ex_ft
             (cache_big (snd ex_reset)) ex_deep = Inr (s', cache')"
    by (simp add: ex_nets_def)
  define rr where "rr = update_accumulator_refresh_cache True ex_fs BLACK ?B ex_ft ?q3
                          (m_accumulators ex_deep ! 3) (cache_big (snd ex_reset))"
  have nk: "\<not> computed (acc_of ?B (m_accumulators ex_deep ! 1)) BLACK"
    by (rule ex_deep_shape)
  have c3: "unat (m_current_idx ex_deep) - 1 = 3" by (simp add: ex_deep_shape)
  have e: "described_evaluate_side True ex_fs BLACK ?B ?q3 ex_ft (cache_big (snd ex_reset))
             ex_deep
           = (case propagate ex_fs BLACK BACKWARD ?B ex_ft 59 (backward_pairs 1 4)
                     ex_deep_refreshed of
                Inl e \<Rightarrow> Inl e
              | Inr accs' \<Rightarrow> Inr (ex_deep\<lparr>m_accumulators := accs'\<rparr>, snd rr))"
    unfolding described_evaluate_side_def Let_def ex_deep_last_usable c3 ks rr_def
    using nk ex_deep_shape(1) by (simp add: split_beta ex_deep_refreshed_def)
  from d obtain accs' where
    pr: "propagate ex_fs BLACK BACKWARD ?B ex_ft 59 (backward_pairs 1 4) ex_deep_refreshed
           = Inr accs'"
    unfolding e by (auto split: sum.splits)
  have bp: "backward_pairs 1 4 = [(2, 3), (1, 2)]"
    by (simp add: backward_pairs_def upt_rec [of _ "numeral _"] upt_rec [of _ "Suc _"])
  from propagate_frame [OF pr]
  have tg: "\<forall>(t, s) \<in> set [(2 :: nat, 3 :: nat), (1, 2)].
              computed (acc_of ?B (accs' ! unat (of_nat t :: size_t))) BLACK"
    unfolding bp by simp
  have "computed (acc_of ?B (accs' ! 1)) BLACK" "computed (acc_of ?B (accs' ! 2)) BLACK"
    using tg by simp_all
  with pr show ?thesis by blast
qed

lemma ex_deep_hyps:
  "1 \<le> m_current_idx ex_deep"
  "unat (m_current_idx ex_deep) \<le> length (m_accumulators ex_deep)"
  "length (m_accumulators ex_deep) < 2 ^ 64"
  by (simp_all add: ex_deep_shape)

lemma ex_deep_entry:
  "cache_entry_inv ex_fs ex_ft p (king_square pos p) (cache_big (snd ex_reset) (king_square pos p) p)"
  using ex_reset_eq(3) by (simp add: caches_inv_def cache_inv_def ex_nets_def)

lemma ex_deep_find:
  "find_last_usable_accumulator ex_fs BLACK ap ex_deep = Inr 1"
  "find_last_usable_accumulator ex_fs WHITE ap ex_deep = Inr 0"
  using find_last_usable_accumulator_eq [OF ex_deep_hyps(1,2), of ex_fs _ ap]
  by (simp_all add: ex_deep_last_usable)

lemma ex_deep_loop:
  "backward_loop ex_fs BLACK ap ex_ft 59 1 (m_current_idx ex_deep - 2) accs
     = Some (propagate ex_fs BLACK BACKWARD ap ex_ft 59 [(2, 3), (1, 2)] accs)"
proof -
  have l: "map (\<lambda>i. (i, Suc i)) (rev [unat (1 :: size_t)..<Suc (unat (m_current_idx ex_deep - 2))])
             = [(2, 3), (1, 2)]"
    by (simp add: ex_deep_shape upt_rec [of _ "numeral _"] upt_rec [of _ "Suc _"])
  have "1 \<le> unat (1 :: size_t)" by simp
  from backward_loop_propagate [OF this, of ex_fs BLACK ap ex_ft 59 "m_current_idx ex_deep - 2" accs]
  show ?thesis by (simp only: l)
qed

lemma ex_pairs:
  "backward_pairs 1 4 = [(2, 3), (1, 2)]"
  "forward_pairs 0 4 = [(1, 0), (2, 1), (3, 2)]"
  "accessed [(2, 3), (1, 2)] = [2, 3, 1, 2]"
  by (simp_all add: backward_pairs_def forward_pairs_def accessed_def
        upt_rec [of _ "numeral _"] upt_rec [of _ "Suc _"])

theorem evaluate_side_selects_and_propagates_witness:
  "stack_reset True ex_fs (ex_position 4 60 12) ex_nets ex_caches ex_stack = Inr ex_reset
   \<and> run True ex_fs ex_nets ex_ops2 (fst ex_reset, snd ex_reset, [ex_position 4 60 12])
       = Some (Inr (ex_deep, snd ex_reset,
                    [ex_position 4 60 12, ex_position 4 59 12, ex_position 4 59 28,
                     ex_position 4 59 36]))
   \<and> 1 \<le> m_current_idx ex_deep
   \<and> unat (m_current_idx ex_deep) \<le> length (m_accumulators ex_deep)
   \<and> length (m_accumulators ex_deep) < 2 ^ 64
   \<and> computed (acc_of accumulatorBigPtr (m_accumulators ex_deep ! 0)) BLACK
   \<and> computed (acc_of accumulatorBigPtr (m_accumulators ex_deep ! 0)) WHITE
   \<and> cache_entry_inv ex_fs ex_ft BLACK (king_square (ex_position 4 59 36) BLACK)
        (cache_big (snd ex_reset) (king_square (ex_position 4 59 36) BLACK) BLACK)
   \<and> cache_entry_inv ex_fs ex_ft WHITE (king_square (ex_position 4 59 36) WHITE)
        (cache_big (snd ex_reset) (king_square (ex_position 4 59 36) WHITE) WHITE)
   \<and> last_usable ex_fs BLACK accumulatorBigPtr ex_deep = 1
   \<and> find_last_usable_accumulator ex_fs BLACK accumulatorBigPtr ex_deep = Inr 1
   \<and> \<not> computed (acc_of accumulatorBigPtr (m_accumulators ex_deep ! 1)) BLACK
   \<and> (\<exists>s' cache'.
         evaluate_side True ex_fs BLACK accumulatorBigPtr (ex_position 4 59 36) ex_ft
           (cache_big (snd ex_reset)) ex_deep = Some (Inr (s', cache'))
       \<and> specified_evaluate_side ex_fs BLACK accumulatorBigPtr (ex_position 4 59 36) ex_ft
           (cache_big (snd ex_reset)) ex_deep = Inr (s', cache')
       \<and> incremental_passes ex_fs BLACK BACKWARD accumulatorBigPtr ex_ft 59 [(2, 3), (1, 2)]
           ((m_accumulators ex_deep)
              [3 := refreshed_state ex_fs BLACK accumulatorBigPtr ex_ft (ex_position 4 59 36)
                      (m_accumulators ex_deep ! 3)])
           = Inr (m_accumulators s'))
   \<and> last_usable ex_fs WHITE accumulatorBigPtr ex_deep = 0
   \<and> find_last_usable_accumulator ex_fs WHITE accumulatorBigPtr ex_deep = Inr 0
   \<and> (\<exists>s' cache'.
         evaluate_side True ex_fs WHITE accumulatorBigPtr (ex_position 4 59 36) ex_ft
           (cache_big (snd ex_reset)) ex_deep = Some (Inr (s', cache'))
       \<and> specified_evaluate_side ex_fs WHITE accumulatorBigPtr (ex_position 4 59 36) ex_ft
           (cache_big (snd ex_reset)) ex_deep = Inr (s', cache')
       \<and> incremental_passes ex_fs WHITE FORWARD accumulatorBigPtr ex_ft 4
           [(1, 0), (2, 1), (3, 2)] (m_accumulators ex_deep) = Inr (m_accumulators s')
       \<and> cache' = cache_big (snd ex_reset))"
proof -
  let ?B = accumulatorBigPtr
  let ?q3 = "ex_position 4 59 36"
  let ?path = "[ex_position 4 60 12, ex_position 4 59 12, ex_position 4 59 28, ?q3]"
  let ?cache = "cache_big (snd ex_reset)"
  have pos: "?q3 = last ?path" by simp
  have ci: "cache_inv ex_fs (net_ft ex_nets ?B) ?cache"
    using caches_inv_of [OF ex_reset_eq(3), of ?B] by simp
  have ft: "net_ft ex_nets ?B = ex_ft" by (simp add: ex_nets_def)
  note hb = ex_deep_hyps ex_deep_root [of ?B BLACK] ex_deep_entry [of BLACK ?q3]
  note hw = ex_deep_hyps ex_deep_root [of ?B WHITE] ex_deep_entry [of WHITE ?q3]
  note tb = evaluate_side_selects_and_propagates [where s = ex_deep and ap = ?B and p = BLACK
      and fs = ex_fs and ft = ex_ft and pos = ?q3 and cache = ?cache and V = True, OF hb]
  note tw = evaluate_side_selects_and_propagates [where s = ex_deep and ap = ?B and p = WHITE
      and fs = ex_fs and ft = ex_ft and pos = ?q3 and cache = ?cache and V = True, OF hw]
  have nk: "\<not> computed (acc_of ?B (m_accumulators ex_deep ! 1)) BLACK"
    by (rule ex_deep_shape)
  have c3: "unat (m_current_idx ex_deep) - 1 = 3" "unat (m_current_idx ex_deep) = 4"
    by (simp_all add: ex_deep_shape)
  have ks: "king_square ?q3 BLACK = 59" "king_square ?q3 WHITE = 4"
    by (simp_all add: ex_position_def)
  note bp = ex_pairs(1) and fp = ex_pairs(2)
  from evaluate_side_correct [OF ex_deep_inv ci pos, of True BLACK]
  obtain sb cb where
    evb: "evaluate_side True ex_fs BLACK ?B ?q3 ex_ft ?cache ex_deep = Some (Inr (sb, cb))"
    unfolding ft by blast
  with tb have spb: "specified_evaluate_side ex_fs BLACK ?B ?q3 ex_ft ?cache ex_deep
                       = Inr (sb, cb)" by simp
  have pb: "incremental_passes ex_fs BLACK BACKWARD ?B ex_ft 59 [(2, 3), (1, 2)]
              ((m_accumulators ex_deep)
                 [3 := refreshed_state ex_fs BLACK ?B ex_ft ?q3 (m_accumulators ex_deep ! 3)])
              = Inr (m_accumulators sb)"
    using spb nk
    unfolding specified_evaluate_side_def Let_def ex_deep_last_usable c3 ks bp
    by (auto split: sum.splits)
  from evaluate_side_correct [OF ex_deep_inv ci pos, of True WHITE]
  obtain sw cw where
    evw: "evaluate_side True ex_fs WHITE ?B ?q3 ex_ft ?cache ex_deep = Some (Inr (sw, cw))"
    unfolding ft by blast
  with tw have spw: "specified_evaluate_side ex_fs WHITE ?B ?q3 ex_ft ?cache ex_deep
                       = Inr (sw, cw)" by simp
  have pw: "incremental_passes ex_fs WHITE FORWARD ?B ex_ft 4 [(1, 0), (2, 1), (3, 2)]
              (m_accumulators ex_deep) = Inr (m_accumulators sw) \<and> cw = ?cache"
    using spw ex_deep_root [of ?B WHITE]
    unfolding specified_evaluate_side_def Let_def ex_deep_last_usable c3 ks fp
    by (auto split: sum.splits)
  from tb tw evb spb pb evw spw pw hb hw nk ex_reset_eq(1) ex_deep_reached
    ex_deep_last_usable [of ?B] ex_deep_find [of ?B]
  show ?thesis by blast
qed

subsection \<open>The bounds of the backward loop\<close>

text \<open>
  C10, as amended. With the root computed, \<open>evaluate_side\<close> takes the backward branch only
  for an index \<open>end \<ge> 1\<close>: the state \<open>find_last_usable_accumulator\<close> returns is not
  computed only when its index is at least 1. For such an \<open>end\<close> below \<open>m_current_idx\<close>
  the loop of \<open>backward_update_incremental\<close> returns, having run \<open>next\<close> from
  \<open>m_current_idx - 2\<close> down to \<open>end\<close> without wrapping; the targets \<open>m_accumulators[next]\<close>
  lie in \<open>[end, m_current_idx - 2]\<close>, and all subscripts, with the sources
  \<open>m_accumulators[next + 1]\<close>, lie in \<open>[end, m_current_idx - 1]\<close>, inside the vector.
\<close>

theorem backward_loop_within_bounds:
  assumes "1 \<le> m_current_idx s"
    and "unat (m_current_idx s) \<le> length (m_accumulators s)"
    and "length (m_accumulators s) < 2 ^ 64"
    and "computed (acc_of ap (m_accumulators s ! 0)) p"
  shows "(\<forall>k u. find_last_usable_accumulator fs p ap s = Inr k
                 \<and> at (m_accumulators s) k = Inr u \<and> \<not> computed (acc_of ap u) p
            \<longrightarrow> 1 \<le> k \<and> k < m_current_idx s)
     \<and> (\<forall>e accs. 1 \<le> e \<and> e < m_current_idx s \<longrightarrow>
           backward_loop fs p ap ft ksq e (m_current_idx s - 2) accs
             = Some (propagate fs p BACKWARD ap ft ksq
                       (backward_pairs (unat e) (unat (m_current_idx s))) accs)
           \<and> (\<forall>(t, r) \<in> set (backward_pairs (unat e) (unat (m_current_idx s))).
                 unat e \<le> t \<and> t \<le> unat (m_current_idx s) - 2 \<and> r = t + 1)
           \<and> (\<forall>i \<in> set (accessed (backward_pairs (unat e) (unat (m_current_idx s)))).
                 unat e \<le> i \<and> i \<le> unat (m_current_idx s) - 1
                 \<and> i < length (m_accumulators s)))"
proof (intro conjI allI impI)
  fix k u
  assume a: "find_last_usable_accumulator fs p ap s = Inr k
             \<and> at (m_accumulators s) k = Inr u \<and> \<not> computed (acc_of ap u) p"
  let ?k = "last_usable fs p ap s"
  from assms(1) have cpos: "0 < unat (m_current_idx s)" by (simp add: word_le_nat_alt)
  have kc: "?k < unat (m_current_idx s)" using cpos by (rule last_usable_props(1))
  then have uk: "unat (of_nat ?k :: size_t) = ?k"
    using assms(2,3) by (intro unat_of_nat_size_t) simp
  from a find_last_usable_accumulator_eq [OF assms(1,2), of fs p ap]
  have k: "k = of_nat ?k" by simp
  with a uk have "\<not> computed (acc_of ap (m_accumulators s ! ?k)) p"
    by (auto simp: at_def split: if_splits)
  with assms(4) have "?k \<noteq> 0" by (cases "?k = 0") simp_all
  then show "1 \<le> k" by (simp add: k word_le_nat_alt uk)
  from kc show "k < m_current_idx s" by (simp add: k word_less_nat_alt uk)
next
  fix e :: size_t and accs :: "'a AccumulatorState list"
  assume e: "1 \<le> e \<and> e < m_current_idx s"
  then have e1: "1 \<le> unat e" and ec: "unat e < unat (m_current_idx s)"
    by (simp_all add: word_le_nat_alt word_less_nat_alt)
  then have "(2 :: size_t) \<le> m_current_idx s" by (simp add: word_le_nat_alt)
  then have pred2: "unat (m_current_idx s - 2) = unat (m_current_idx s) - 2" by unat_arith
  have "Suc (unat (m_current_idx s) - 2) = unat (m_current_idx s) - 1" using e1 ec by simp
  then show "backward_loop fs p ap ft ksq e (m_current_idx s - 2) accs
             = Some (propagate fs p BACKWARD ap ft ksq
                       (backward_pairs (unat e) (unat (m_current_idx s))) accs)"
    using backward_loop_propagate [OF e1, of fs p ap ft ksq "m_current_idx s - 2" accs]
    by (simp add: pred2 backward_pairs_def)
  show "\<forall>(t, r) \<in> set (backward_pairs (unat e) (unat (m_current_idx s))).
          unat e \<le> t \<and> t \<le> unat (m_current_idx s) - 2 \<and> r = t + 1"
    by (auto simp: backward_pairs_def)
  show "\<forall>i \<in> set (accessed (backward_pairs (unat e) (unat (m_current_idx s)))).
          unat e \<le> i \<and> i \<le> unat (m_current_idx s) - 1 \<and> i < length (m_accumulators s)"
    using assms(2) by (auto simp: backward_pairs_def accessed_def)
qed

theorem backward_loop_within_bounds_witness:
  "stack_reset True ex_fs (ex_position 4 60 12) ex_nets ex_caches ex_stack = Inr ex_reset
   \<and> run True ex_fs ex_nets ex_ops2 (fst ex_reset, snd ex_reset, [ex_position 4 60 12])
       = Some (Inr (ex_deep, snd ex_reset,
                    [ex_position 4 60 12, ex_position 4 59 12, ex_position 4 59 28,
                     ex_position 4 59 36]))
   \<and> 1 \<le> m_current_idx ex_deep
   \<and> unat (m_current_idx ex_deep) \<le> length (m_accumulators ex_deep)
   \<and> length (m_accumulators ex_deep) < 2 ^ 64
   \<and> computed (acc_of accumulatorBigPtr (m_accumulators ex_deep ! 0)) BLACK
   \<and> find_last_usable_accumulator ex_fs BLACK accumulatorBigPtr ex_deep = Inr 1
   \<and> at (m_accumulators ex_deep) 1 = Inr (m_accumulators ex_deep ! 1)
   \<and> \<not> computed (acc_of accumulatorBigPtr (m_accumulators ex_deep ! 1)) BLACK
   \<and> (1 :: size_t) \<le> 1 \<and> 1 < m_current_idx ex_deep
   \<and> backward_loop ex_fs BLACK accumulatorBigPtr ex_ft 59 1 (m_current_idx ex_deep - 2)
        ex_deep_refreshed
      = Some (propagate ex_fs BLACK BACKWARD accumulatorBigPtr ex_ft 59
                (backward_pairs (unat (1 :: size_t)) (unat (m_current_idx ex_deep)))
                ex_deep_refreshed)
   \<and> (\<exists>accs'. backward_loop ex_fs BLACK accumulatorBigPtr ex_ft 59 1
                  (m_current_idx ex_deep - 2) ex_deep_refreshed = Some (Inr accs')
          \<and> computed (acc_of accumulatorBigPtr (accs' ! 1)) BLACK
          \<and> computed (acc_of accumulatorBigPtr (accs' ! 2)) BLACK)
   \<and> accessed (backward_pairs (unat (1 :: size_t)) (unat (m_current_idx ex_deep)))
       = [2, 3, 1, 2]"
proof -
  let ?B = accumulatorBigPtr
  note h = ex_deep_hyps ex_deep_root [of ?B BLACK]
  note t = backward_loop_within_bounds [OF h, where fs = ex_fs and ft = ex_ft and ksq = 59]
  have a1: "at (m_accumulators ex_deep) 1 = Inr (m_accumulators ex_deep ! 1)"
    by (simp add: at_def ex_deep_shape)
  have nk: "\<not> computed (acc_of ?B (m_accumulators ex_deep ! 1)) BLACK"
    by (rule ex_deep_shape)
  have e: "(1 :: size_t) \<le> 1 \<and> 1 < m_current_idx ex_deep" by (simp add: ex_deep_shape)
  from t e have lp: "backward_loop ex_fs BLACK ?B ex_ft 59 1 (m_current_idx ex_deep - 2)
        ex_deep_refreshed
      = Some (propagate ex_fs BLACK BACKWARD ?B ex_ft 59
                (backward_pairs (unat (1 :: size_t)) (unat (m_current_idx ex_deep)))
                ex_deep_refreshed)"
    by blast
  have u: "unat (1 :: size_t) = 1" "unat (m_current_idx ex_deep) = 4"
    by (simp_all add: ex_deep_shape)
  from ex_deep_backward obtain accs' where
    pr: "propagate ex_fs BLACK BACKWARD ?B ex_ft 59 (backward_pairs 1 4) ex_deep_refreshed
           = Inr accs'"
    and fl: "computed (acc_of ?B (accs' ! 1)) BLACK" "computed (acc_of ?B (accs' ! 2)) BLACK"
    by blast
  from lp pr have ret: "backward_loop ex_fs BLACK ?B ex_ft 59 1 (m_current_idx ex_deep - 2)
        ex_deep_refreshed = Some (Inr accs')"
    by (simp only: u)
  have ac: "accessed (backward_pairs (unat (1 :: size_t)) (unat (m_current_idx ex_deep)))
              = [2, 3, 1, 2]"
    by (simp only: u ex_pairs)
  from lp ret fl ac h a1 nk e ex_reset_eq(1) ex_deep_reached ex_deep_find(1) [of ?B]
  show ?thesis by blast
qed

text \<open>
  The claim C10 as it was stated bounds every array access by \<open>m_current_idx - 2\<close>. On
  the stack \<open>ex_deep\<close>, reached by \<open>reset\<close> and three pushes, \<open>m_current_idx\<close> is 4 and
  \<open>evaluate_side\<close> for the black perspective refreshes the latest state and calls the loop
  with \<open>end = 1\<close>. The loop returns without a failed assertion, and it is the pass into
  state 2 from state 3 followed by the pass into state 1 from state 2: its first pass,
  at \<open>next = 2\<close>, reads \<open>m_accumulators[next + 1]\<close>, index 3, above
  \<open>m_current_idx - 2 = 2\<close>.
\<close>

theorem backward_loop_reads_latest_counterexample:
  "stack_reset True ex_fs (ex_position 4 60 12) ex_nets ex_caches ex_stack = Inr ex_reset
   \<and> run True ex_fs ex_nets ex_ops2 (fst ex_reset, snd ex_reset, [ex_position 4 60 12])
       = Some (Inr (ex_deep, snd ex_reset,
                    [ex_position 4 60 12, ex_position 4 59 12, ex_position 4 59 28,
                     ex_position 4 59 36]))
   \<and> m_current_idx ex_deep = 4
   \<and> find_last_usable_accumulator ex_fs BLACK accumulatorBigPtr ex_deep = Inr 1
   \<and> backward_loop ex_fs BLACK accumulatorBigPtr ex_ft 59 1 (m_current_idx ex_deep - 2)
        ex_deep_refreshed
      = Some (incremental_passes ex_fs BLACK BACKWARD accumulatorBigPtr ex_ft 59
                [(2, 3), (1, 2)] ex_deep_refreshed)
   \<and> map_option isl
        (backward_loop ex_fs BLACK accumulatorBigPtr ex_ft 59 1 (m_current_idx ex_deep - 2)
           ex_deep_refreshed) = Some False
   \<and> accessed (backward_pairs 1 (unat (m_current_idx ex_deep))) = [2, 3, 1, 2]
   \<and> 3 \<in> set (accessed (backward_pairs 1 (unat (m_current_idx ex_deep))))
   \<and> \<not> (3 \<le> unat (m_current_idx ex_deep) - 2)"
proof -
  let ?B = accumulatorBigPtr
  have len: "length ex_deep_refreshed = 5" by (simp add: ex_deep_refreshed_def ex_deep_shape)
  have lp: "backward_loop ex_fs BLACK ?B ex_ft 59 1 (m_current_idx ex_deep - 2)
              ex_deep_refreshed
            = Some (propagate ex_fs BLACK BACKWARD ?B ex_ft 59 [(2, 3), (1, 2)]
                      ex_deep_refreshed)"
    by (rule ex_deep_loop)
  have pp: "propagate ex_fs BLACK BACKWARD ?B ex_ft 59 [(2, 3), (1, 2)] ex_deep_refreshed
              = incremental_passes ex_fs BLACK BACKWARD ?B ex_ft 59 [(2, 3), (1, 2)]
                  ex_deep_refreshed"
    by (rule propagate_passes) (simp_all add: len)
  note bp = ex_pairs(1)
  from ex_deep_backward obtain accs' where
    "propagate ex_fs BLACK BACKWARD ?B ex_ft 59 [(2, 3), (1, 2)] ex_deep_refreshed = Inr accs'"
    unfolding bp by blast
  with lp have ret: "map_option isl
        (backward_loop ex_fs BLACK ?B ex_ft 59 1 (m_current_idx ex_deep - 2) ex_deep_refreshed)
          = Some False"
    by simp
  have u: "unat (m_current_idx ex_deep) = 4" by (simp add: ex_deep_shape)
  have ac: "accessed (backward_pairs 1 (unat (m_current_idx ex_deep))) = [2, 3, 1, 2]"
    by (simp only: u ex_pairs)
  have "3 \<in> set (accessed (backward_pairs 1 (unat (m_current_idx ex_deep))))"
    unfolding ac by simp
  moreover have "\<not> (3 \<le> unat (m_current_idx ex_deep) - 2)" unfolding u by simp
  moreover have "m_current_idx ex_deep = 4" by (rule ex_deep_shape)
  moreover note ex_reset_eq(1) ex_deep_reached ex_deep_find(1) [of ?B] lp [unfolded pp] ret ac
  ultimately show ?thesis by blast
qed

end
